theory Spec2Isabelle
  imports Main
begin

section \<open>Data model (app/schemas/response.py, app/config.py)\<close>

text \<open>
  The pydantic models are records, the enums are datatypes. Python strings are
  \<open>string\<close>, \<open>Optional[str]\<close> is \<open>string option\<close>. Several models share field
  names (\<open>rule_text_citation\<close>, \<open>change_reason\<close>, \<open>rules\<close>, \<open>error\<close>, ...), so
  selectors are written with the record's name in front wherever two records
  have the field.
\<close>

datatype ChangeStatus = NEW | UPDATED | UNCHANGED

datatype USState = MONTANA

fun USState_value :: "USState \<Rightarrow> string" where
  "USState_value MONTANA = ''montana''"

record Rule =
  rule_number :: string
  effective_date :: string
  rule_text :: string
  rule_text_citation :: string

record ProcessedRule =
  rule_name :: string
  rule_description :: string
  rule_text_citation :: string
  status :: ChangeStatus
  change_reason :: "string option"

record ExtractionResponse =
  success :: bool
  state :: string
  product_type :: string
  source_url :: string
  total_rules_extracted :: int
  rules :: "ProcessedRule list"
  error :: "string option"

section \<open>The Gemini collaborator (app/services/gemini_service.py)\<close>

subsection \<open>Structured output schemas\<close>

record ExtractedRule =
  rule_name :: string
  rule_description :: string

record RuleExtractionResult =
  rules :: "ExtractedRule list"

record RuleComparisonResult =
  are_equivalent :: bool
  change_reason :: "string option"

subsection \<open>The remote model and the JSON validators\<close>

text \<open>
  The language model and pydantic's \<open>model_validate_json\<close> are third-party code;
  they are parameters of the embedding.

  A prompt is the fixed template text with the interpolated values filled in;
  the template text is constant, so a prompt is represented by the values it
  interpolates: the rule text for an extraction prompt, and the name and
  description of the existing rule and of the new rule for a comparison prompt.

  \<open>generate_content g k p\<close> is the outcome of the \<open>k\<close>-th call (counted from 0)
  of \<open>client.aio.models.generate_content\<close> during the run when it is given the
  prompt \<open>p\<close>: it raises an exception whose \<open>str\<close> is the given message, or
  returns a response whose \<open>text\<close> attribute is \<open>None\<close> or a string. Indexing by
  the call number lets the same prompt be answered differently at different
  calls. The validators return \<open>Inl\<close> of the message of the exception they raise,
  or \<open>Inr\<close> of the validated model.
\<close>

datatype prompt =
  ExtractionPrompt string
| ComparisonPrompt string string string string

datatype reply =
  Raises string
| Response "string option"

record gemini =
  generate_content :: "nat \<Rightarrow> prompt \<Rightarrow> reply"
  validate_extraction :: "string \<Rightarrow> string + RuleExtractionResult"
  validate_comparison :: "string \<Rightarrow> string + RuleComparisonResult"

text \<open>
  The calls made so far are kept as a log of prompts, threaded through every
  function that talks to the model; the call number is the length of the log.
\<close>

definition generate :: "gemini \<Rightarrow> prompt list \<Rightarrow> prompt \<Rightarrow> reply \<times> prompt list" where
  "generate g log p = (generate_content g (length log) p, log @ [p])"

subsection \<open>Rule extraction\<close>

definition build_extraction_prompt :: "string \<Rightarrow> prompt" where
  "build_extraction_prompt text = ExtractionPrompt text"

text \<open>
  \<open>extract_rules_from_text\<close>: every exception of the \<open>try\<close> block (the call, the
  empty response, the validation) is re-raised as
  \<open>Exception(f"Rule extraction failed: {str(e)}")\<close>; the result is \<open>Inl\<close> of that
  message.
\<close>

definition to_processed_rule :: "string \<Rightarrow> ExtractedRule \<Rightarrow> ProcessedRule" where
  "to_processed_rule citation extracted =
     \<lparr> ProcessedRule.rule_name = ExtractedRule.rule_name extracted,
       rule_description = ExtractedRule.rule_description extracted,
       rule_text_citation = citation,
       status = NEW,
       change_reason = None \<rparr>"

definition extract_rules_from_text ::
  "gemini \<Rightarrow> prompt list \<Rightarrow> string \<Rightarrow> string \<Rightarrow> (string + ProcessedRule list) \<times> prompt list" where
  "extract_rules_from_text g log text citation =
     (let prompt = build_extraction_prompt text;
          (response, log') = generate g log prompt
      in ((case response of
             Raises e \<Rightarrow> Inl (''Rule extraction failed: '' @ e)
           | Response None \<Rightarrow> Inl (''Rule extraction failed: '' @ ''Gemini returned empty response'')
           | Response (Some t) \<Rightarrow>
               if t = [] then Inl (''Rule extraction failed: '' @ ''Gemini returned empty response'')
               else (case validate_extraction g t of
                       Inl e \<Rightarrow> Inl (''Rule extraction failed: '' @ e)
                     | Inr result \<Rightarrow>
                         Inr (map (to_processed_rule citation) (RuleExtractionResult.rules result)))),
          log'))"

text \<open>
  \<open>extract_rules_from_scraped_data\<close>: the \<open>for\<close> loop over the scraped rules, with
  the accumulator \<open>all_processed_rules\<close>; a failed item is logged and skipped
  (\<open>continue\<close>).
\<close>

fun extract_loop ::
  "gemini \<Rightarrow> Rule list \<Rightarrow> ProcessedRule list \<times> prompt list \<Rightarrow> ProcessedRule list \<times> prompt list" where
  "extract_loop g [] (all_processed_rules, log) = (all_processed_rules, log)"
| "extract_loop g (scraped_rule # rest) (all_processed_rules, log) =
     (case extract_rules_from_text g log (rule_text scraped_rule) (Rule.rule_text_citation scraped_rule) of
        (Inr extracted_rules, log') \<Rightarrow> extract_loop g rest (all_processed_rules @ extracted_rules, log')
      | (Inl e, log') \<Rightarrow> extract_loop g rest (all_processed_rules, log'))"

definition extract_rules_from_scraped_data ::
  "gemini \<Rightarrow> prompt list \<Rightarrow> Rule list \<Rightarrow> ProcessedRule list \<times> prompt list" where
  "extract_rules_from_scraped_data g log scraped_rules = extract_loop g scraped_rules ([], log)"

subsection \<open>Rule comparison\<close>

definition build_comparison_prompt :: "ProcessedRule \<Rightarrow> ProcessedRule \<Rightarrow> prompt" where
  "build_comparison_prompt existing_rule new_rule =
     ComparisonPrompt
       (ProcessedRule.rule_name existing_rule) (ProcessedRule.rule_description existing_rule)
       (ProcessedRule.rule_name new_rule) (ProcessedRule.rule_description new_rule)"

text \<open>
  \<open>compare_rules\<close>: the \<open>except\<close> branch turns every exception of the \<open>try\<close> block
  into \<open>(UPDATED, f"Comparison error: {str(e)}")\<close>.
\<close>

definition compare_rules ::
  "gemini \<Rightarrow> prompt list \<Rightarrow> ProcessedRule \<Rightarrow> ProcessedRule
     \<Rightarrow> (ChangeStatus \<times> string option) \<times> prompt list" where
  "compare_rules g log existing_rule new_rule =
     (let prompt = build_comparison_prompt existing_rule new_rule;
          (response, log') = generate g log prompt
      in ((case response of
             Raises e \<Rightarrow> (UPDATED, Some (''Comparison error: '' @ e))
           | Response None \<Rightarrow> (UPDATED, Some (''Comparison error: '' @ ''Gemini returned empty response''))
           | Response (Some t) \<Rightarrow>
               if t = [] then (UPDATED, Some (''Comparison error: '' @ ''Gemini returned empty response''))
               else (case validate_comparison g t of
                       Inl e \<Rightarrow> (UPDATED, Some (''Comparison error: '' @ e))
                     | Inr result \<Rightarrow>
                         if are_equivalent result then (UNCHANGED, None)
                         else (UPDATED, RuleComparisonResult.change_reason result))),
          log'))"

text \<open>
  \<open>compare_rule_sets\<close>. The dict comprehension
  \<open>{rule.rule_text_citation: rule for rule in existing_rules}\<close> inserts the rules
  in list order, a later key overwriting an earlier one. The \<open>for\<close> loop appends
  one freshly constructed rule to \<open>final_rules\<close> per element of \<open>new_rules\<close>.
\<close>

definition existing_map :: "ProcessedRule list \<Rightarrow> (string \<rightharpoonup> ProcessedRule)" where
  "existing_map existing_rules =
     fold (\<lambda>rule m. m(ProcessedRule.rule_text_citation rule \<mapsto> rule)) existing_rules Map.empty"

text \<open>
  The construction \<open>ProcessedRule(rule_name=new_rule.rule_name, ...,
  status=..., change_reason=...)\<close> of the loop body: a new rule with the name,
  description and citation of \<open>new_rule\<close> and the given status and reason.
\<close>

definition with_status :: "ProcessedRule \<Rightarrow> ChangeStatus \<Rightarrow> string option \<Rightarrow> ProcessedRule" where
  "with_status new_rule status' change_reason' =
     \<lparr> ProcessedRule.rule_name = ProcessedRule.rule_name new_rule,
       rule_description = ProcessedRule.rule_description new_rule,
       rule_text_citation = ProcessedRule.rule_text_citation new_rule,
       status = status',
       change_reason = change_reason' \<rparr>"

fun compare_loop ::
  "gemini \<Rightarrow> (string \<rightharpoonup> ProcessedRule) \<Rightarrow> ProcessedRule list
     \<Rightarrow> ProcessedRule list \<times> prompt list \<Rightarrow> ProcessedRule list \<times> prompt list" where
  "compare_loop g m [] (final_rules, log) = (final_rules, log)"
| "compare_loop g m (new_rule # rest) (final_rules, log) =
     (let citation = ProcessedRule.rule_text_citation new_rule
      in (case m citation of
            Some existing_rule \<Rightarrow>
              (case compare_rules g log existing_rule new_rule of
                 ((status', change_reason'), log') \<Rightarrow>
                   compare_loop g m rest
                     (final_rules @ [with_status new_rule status' change_reason'], log'))
          | None \<Rightarrow>
              compare_loop g m rest (final_rules @ [with_status new_rule NEW None], log)))"

definition compare_rule_sets ::
  "gemini \<Rightarrow> prompt list \<Rightarrow> ProcessedRule list \<Rightarrow> ProcessedRule list
     \<Rightarrow> ProcessedRule list \<times> prompt list" where
  "compare_rule_sets g log existing_rules new_rules =
     compare_loop g (existing_map existing_rules) new_rules ([], log)"

section \<open>Pipeline state (app/graph/state.py)\<close>

record PipelineState =
  state :: USState
  product_type :: string
  existing_rules :: "ProcessedRule list"
  source_url :: string
  scraped_rules :: "Rule list"
  processed_rules :: "ProcessedRule list"
  final_rules :: "ProcessedRule list"
  error :: "string option"

text \<open>\<open>existing_rules or []\<close>: \<open>None\<close> and the empty list both give the empty list.\<close>

definition create_initial_state ::
  "USState \<Rightarrow> string \<Rightarrow> ProcessedRule list option \<Rightarrow> PipelineState" where
  "create_initial_state st pt existing =
     \<lparr> PipelineState.state = st,
       product_type = pt,
       existing_rules = (case existing of None \<Rightarrow> [] | Some xs \<Rightarrow> xs),
       source_url = [],
       scraped_rules = [],
       processed_rules = [],
       final_rules = [],
       error = None \<rparr>"

text \<open>
  A node returns a dict holding some of the keys of the state. The state schema
  is a plain \<open>TypedDict\<close> with no reducer on any key, so the graph engine
  (LangGraph, third-party) writes each returned key over the state's value and
  leaves the other keys alone. \<open>update\<close> is the returned dict: \<open>None\<close> for a key
  that is not returned, \<open>Some v\<close> for a key returned with value \<open>v\<close> (so a
  returned \<open>"error": None\<close> is \<open>Some None\<close>).
\<close>

record update =
  upd_scraped_rules :: "Rule list option"
  upd_source_url :: "string option"
  upd_processed_rules :: "ProcessedRule list option"
  upd_final_rules :: "ProcessedRule list option"
  upd_error :: "string option option"

definition apply_update :: "PipelineState \<Rightarrow> update \<Rightarrow> PipelineState" where
  "apply_update s u =
     \<lparr> PipelineState.state = PipelineState.state s,
       product_type = PipelineState.product_type s,
       existing_rules = existing_rules s,
       source_url = (case upd_source_url u of None \<Rightarrow> PipelineState.source_url s | Some v \<Rightarrow> v),
       scraped_rules = (case upd_scraped_rules u of None \<Rightarrow> scraped_rules s | Some v \<Rightarrow> v),
       processed_rules = (case upd_processed_rules u of None \<Rightarrow> processed_rules s | Some v \<Rightarrow> v),
       final_rules = (case upd_final_rules u of None \<Rightarrow> final_rules s | Some v \<Rightarrow> v),
       error = (case upd_error u of None \<Rightarrow> PipelineState.error s | Some v \<Rightarrow> v) \<rparr>"

section \<open>The collaborators of a request (app/graph/nodes.py)\<close>

text \<open>
  \<open>firecrawl w st pt\<close> is the outcome of \<open>get_firecrawl_service()\<close> followed by
  \<open>firecrawl_service.extract_rules(st, pt)\<close>: \<open>Inl e\<close> when either raises an
  exception whose \<open>str\<close> is \<open>e\<close>, \<open>Inr (scraped_rules, source_url)\<close> otherwise.
  \<open>gemini_init w k\<close> is the outcome of the \<open>k\<close>-th attempt of the request to
  construct \<open>GeminiService()\<close>: \<open>Some e\<close> when it raises, \<open>None\<close> when it succeeds.
  \<open>gemini_client w\<close> is the model behind the constructed service.
\<close>

record world =
  firecrawl :: "USState \<Rightarrow> string \<Rightarrow> string + (Rule list \<times> string)"
  gemini_init :: "nat \<Rightarrow> string option"
  gemini_client :: gemini

text \<open>
  The effects a request has outside the pipeline state: whether the module
  global \<open>_gemini_service\<close> holds a service, how often its construction was
  attempted, and the calls made to the model.
\<close>

record effects =
  gemini_service :: bool
  init_attempts :: nat
  calls :: "prompt list"

definition get_gemini_service :: "world \<Rightarrow> effects \<Rightarrow> string option \<times> effects" where
  "get_gemini_service w fx =
     (if gemini_service fx then (None, fx)
      else (case gemini_init w (init_attempts fx) of
              Some e \<Rightarrow> (Some e, fx\<lparr>init_attempts := Suc (init_attempts fx)\<rparr>)
            | None \<Rightarrow> (None, fx\<lparr>gemini_service := True, init_attempts := Suc (init_attempts fx)\<rparr>)))"

text \<open>Python truthiness of \<open>state.get("error")\<close>: \<open>None\<close> and the empty string are false.\<close>

fun truthy :: "string option \<Rightarrow> bool" where
  "truthy None = False"
| "truthy (Some s) = (s \<noteq> [])"

section \<open>The nodes (app/graph/nodes.py)\<close>

definition scrape_node :: "world \<Rightarrow> PipelineState \<Rightarrow> effects \<Rightarrow> update \<times> effects" where
  "scrape_node w s fx =
     (case firecrawl w (PipelineState.state s) (PipelineState.product_type s) of
        Inr (scraped, url) \<Rightarrow>
          (\<lparr> upd_scraped_rules = Some scraped,
             upd_source_url = Some url,
             upd_processed_rules = None,
             upd_final_rules = None,
             upd_error = Some None \<rparr>, fx)
      | Inl e \<Rightarrow>
          (\<lparr> upd_scraped_rules = Some [],
             upd_source_url = Some [],
             upd_processed_rules = None,
             upd_final_rules = None,
             upd_error = Some (Some (''Scraping failed: '' @ e)) \<rparr>, fx))"

definition extract_rules_node :: "world \<Rightarrow> PipelineState \<Rightarrow> effects \<Rightarrow> update \<times> effects" where
  "extract_rules_node w s fx =
     (if scraped_rules s = [] then
        (\<lparr> upd_scraped_rules = None,
           upd_source_url = None,
           upd_processed_rules = Some [],
           upd_final_rules = None,
           upd_error = Some None \<rparr>, fx)
      else
        (case get_gemini_service w fx of
           (Some e, fx') \<Rightarrow>
             (\<lparr> upd_scraped_rules = None,
                upd_source_url = None,
                upd_processed_rules = Some [],
                upd_final_rules = None,
                upd_error = Some (Some (''Rule extraction failed: '' @ e)) \<rparr>, fx')
         | (None, fx') \<Rightarrow>
             (case extract_rules_from_scraped_data (gemini_client w) (calls fx') (scraped_rules s) of
                (processed, log') \<Rightarrow>
                  (\<lparr> upd_scraped_rules = None,
                     upd_source_url = None,
                     upd_processed_rules = Some processed,
                     upd_final_rules = None,
                     upd_error = Some None \<rparr>, fx'\<lparr>calls := log'\<rparr>))))"

text \<open>The copy with \<open>status=ChangeStatus.NEW, change_reason=None\<close> made by \<open>compare_node\<close> and \<open>format_response_node\<close>.\<close>

definition as_new :: "ProcessedRule \<Rightarrow> ProcessedRule" where
  "as_new rule =
     \<lparr> ProcessedRule.rule_name = ProcessedRule.rule_name rule,
       rule_description = ProcessedRule.rule_description rule,
       rule_text_citation = ProcessedRule.rule_text_citation rule,
       status = NEW,
       change_reason = None \<rparr>"

definition compare_node :: "world \<Rightarrow> PipelineState \<Rightarrow> effects \<Rightarrow> update \<times> effects" where
  "compare_node w s fx =
     (if existing_rules s = [] then
        (\<lparr> upd_scraped_rules = None,
           upd_source_url = None,
           upd_processed_rules = None,
           upd_final_rules = Some (map as_new (processed_rules s)),
           upd_error = Some None \<rparr>, fx)
      else
        (case get_gemini_service w fx of
           (Some e, fx') \<Rightarrow>
             (\<lparr> upd_scraped_rules = None,
                upd_source_url = None,
                upd_processed_rules = None,
                upd_final_rules = Some [],
                upd_error = Some (Some (''Comparison failed: '' @ e)) \<rparr>, fx')
         | (None, fx') \<Rightarrow>
             (case compare_rule_sets (gemini_client w) (calls fx') (existing_rules s) (processed_rules s) of
                (final, log') \<Rightarrow>
                  (\<lparr> upd_scraped_rules = None,
                     upd_source_url = None,
                     upd_processed_rules = None,
                     upd_final_rules = Some final,
                     upd_error = Some None \<rparr>, fx'\<lparr>calls := log'\<rparr>))))"

text \<open>
  \<open>format_response_node\<close> only reads three lists of the state and takes their
  lengths, so nothing in its \<open>try\<close> block raises and its \<open>except\<close> branch is not
  a branch of the model.
\<close>

definition format_response_node :: "PipelineState \<Rightarrow> update" where
  "format_response_node s =
     (if existing_rules s = [] \<and> final_rules s = [] \<and> processed_rules s \<noteq> [] then
        \<lparr> upd_scraped_rules = None,
          upd_source_url = None,
          upd_processed_rules = None,
          upd_final_rules = Some (map as_new (processed_rules s)),
          upd_error = Some None \<rparr>
      else
        \<lparr> upd_scraped_rules = None,
          upd_source_url = None,
          upd_processed_rules = None,
          upd_final_rules = None,
          upd_error = Some None \<rparr>)"

definition should_compare :: "PipelineState \<Rightarrow> string" where
  "should_compare s =
     (if truthy (PipelineState.error s) then ''format''
      else if existing_rules s \<noteq> [] \<and> length (existing_rules s) > 0 then ''compare''
      else ''format'')"

section \<open>The workflow (app/graph/workflow.py)\<close>

text \<open>
  \<open>create_extraction_workflow\<close> wires \<open>START -> scrape -> extract_rules\<close>, the
  conditional edge \<open>should_compare\<close> from \<open>extract_rules\<close> to \<open>compare\<close> or
  \<open>format\<close>, and \<open>compare -> format -> END\<close>. \<open>ainvoke\<close> runs the compiled graph
  from the initial state: each node's update is merged before the next node
  runs.
\<close>

definition ainvoke :: "world \<Rightarrow> PipelineState \<Rightarrow> effects \<Rightarrow> PipelineState \<times> effects" where
  "ainvoke w s0 fx0 =
     (case scrape_node w s0 fx0 of (u1, fx1) \<Rightarrow>
        (let s1 = apply_update s0 u1 in
         (case extract_rules_node w s1 fx1 of (u2, fx2) \<Rightarrow>
            (let s2 = apply_update s1 u2 in
             (if should_compare s2 = ''compare'' then
                (case compare_node w s2 fx2 of (u3, fx3) \<Rightarrow>
                   (let s3 = apply_update s2 u3
                    in (apply_update s3 (format_response_node s3), fx3)))
              else (apply_update s2 (format_response_node s2), fx2))))))"

text \<open>The part of \<open>run_extraction_workflow\<close> after \<open>ainvoke\<close>: the response built from the final state.\<close>

definition build_response :: "USState \<Rightarrow> string \<Rightarrow> PipelineState \<Rightarrow> ExtractionResponse" where
  "build_response st pt final_state =
     (let url = PipelineState.source_url final_state in
      if truthy (PipelineState.error final_state) then
        \<lparr> success = False,
          state = USState_value st,
          product_type = pt,
          source_url = url,
          total_rules_extracted = 0,
          rules = [],
          error = PipelineState.error final_state \<rparr>
      else
        (let final = (if final_rules final_state = [] \<and> processed_rules final_state \<noteq> []
                      then processed_rules final_state else final_rules final_state)
         in \<lparr> success = True,
               state = USState_value st,
               product_type = pt,
               source_url = url,
               total_rules_extracted = int (length final),
               rules = final,
               error = None \<rparr>))"

definition run_extraction_workflow ::
  "world \<Rightarrow> effects \<Rightarrow> USState \<Rightarrow> string \<Rightarrow> ProcessedRule list option
     \<Rightarrow> ExtractionResponse \<times> effects" where
  "run_extraction_workflow w fx0 st pt existing =
     (case ainvoke w (create_initial_state st pt existing) fx0 of
        (final_state, fx) \<Rightarrow> (build_response st pt final_state, fx))"

section \<open>\<open>compare_rule_sets\<close> over an object store\<close>

text \<open>
  Python lists and pydantic models are mutable objects that are passed by
  reference, so whether \<open>compare_rule_sets\<close> changes what its caller passed in
  is a question about a store. Here the store is a list of objects, an address
  is an index into it, and allocation appends. The function is translated once
  more, statement by statement, with \<open>existing_rules\<close> and \<open>new_rules\<close> as
  addresses of list objects whose items are addresses of rule objects:
  reading an attribute or iterating reads the store, \<open>ProcessedRule(...)\<close>
  allocates, and \<open>final_rules.append\<close> overwrites the list object at the address
  of \<open>final_rules\<close>. The result is \<open>None\<close> when an address is dangling or holds
  an object of the wrong kind, which Python's references and the annotated
  types exclude.
\<close>

type_synonym addr = nat

datatype obj =
  RuleObj ProcessedRule
| ListObj "addr list"

type_synonym store = "obj list"

definition alloc :: "store \<Rightarrow> obj \<Rightarrow> addr \<times> store" where
  "alloc h ob = (length h, h @ [ob])"

definition read_rule :: "store \<Rightarrow> addr \<Rightarrow> ProcessedRule option" where
  "read_rule h a =
     (if a < length h then (case h ! a of RuleObj r \<Rightarrow> Some r | ListObj xs \<Rightarrow> None) else None)"

definition read_list :: "store \<Rightarrow> addr \<Rightarrow> addr list option" where
  "read_list h a =
     (if a < length h then (case h ! a of ListObj xs \<Rightarrow> Some xs | RuleObj r \<Rightarrow> None) else None)"

text \<open>\<open>lst.append(item)\<close>: the list object at \<open>l\<close> is replaced by the longer list.\<close>

definition list_append :: "store \<Rightarrow> addr \<Rightarrow> addr \<Rightarrow> store option" where
  "list_append h l a =
     (case read_list h l of None \<Rightarrow> None | Some xs \<Rightarrow> Some (h[l := ListObj (xs @ [a])]))"

text \<open>The dict comprehension: the map from citation to the address of the rule.\<close>

fun existing_map_refs :: "store \<Rightarrow> addr list \<Rightarrow> (string \<rightharpoonup> addr) \<Rightarrow> (string \<rightharpoonup> addr) option" where
  "existing_map_refs h [] m = Some m"
| "existing_map_refs h (a # rest) m =
     (case read_rule h a of
        None \<Rightarrow> None
      | Some rule \<Rightarrow> existing_map_refs h rest (m(ProcessedRule.rule_text_citation rule \<mapsto> a)))"

text \<open>
  The loop. \<open>compare_rules\<close> only reads the name and the description of its two
  arguments to build the prompt, so it is given the rules read from the store.
\<close>

fun compare_loop_refs ::
  "gemini \<Rightarrow> (string \<rightharpoonup> addr) \<Rightarrow> addr \<Rightarrow> addr list \<Rightarrow> store \<times> prompt list
     \<Rightarrow> (store \<times> prompt list) option" where
  "compare_loop_refs g m final [] (h, log) = Some (h, log)"
| "compare_loop_refs g m final (a # rest) (h, log) =
     (case read_rule h a of
        None \<Rightarrow> None
      | Some new_rule \<Rightarrow>
          (case m (ProcessedRule.rule_text_citation new_rule) of
             Some e \<Rightarrow>
               (case read_rule h e of
                  None \<Rightarrow> None
                | Some existing_rule \<Rightarrow>
                    (case compare_rules g log existing_rule new_rule of
                       ((status', change_reason'), log') \<Rightarrow>
                         (case alloc h (RuleObj (with_status new_rule status' change_reason')) of
                            (final_rule, h1) \<Rightarrow>
                              (case list_append h1 final final_rule of
                                 None \<Rightarrow> None
                               | Some h2 \<Rightarrow> compare_loop_refs g m final rest (h2, log')))))
           | None \<Rightarrow>
               (case alloc h (RuleObj (with_status new_rule NEW None)) of
                  (final_rule, h1) \<Rightarrow>
                    (case list_append h1 final final_rule of
                       None \<Rightarrow> None
                     | Some h2 \<Rightarrow> compare_loop_refs g m final rest (h2, log)))))"

text \<open>
  The items of \<open>new_rules\<close> are read once, before the loop: the loop writes to the
  fresh list \<open>final_rules\<close> only, so iterating the list object step by step
  reads the same items.
\<close>

definition compare_rule_sets_refs ::
  "gemini \<Rightarrow> prompt list \<Rightarrow> store \<Rightarrow> addr \<Rightarrow> addr \<Rightarrow> (addr \<times> store \<times> prompt list) option" where
  "compare_rule_sets_refs g log h existing_rules_ref new_rules_ref =
     (case read_list h existing_rules_ref of
        None \<Rightarrow> None
      | Some existing \<Rightarrow>
          (case existing_map_refs h existing Map.empty of
             None \<Rightarrow> None
           | Some m \<Rightarrow>
               (case alloc h (ListObj []) of
                  (final, h1) \<Rightarrow>
                    (case read_list h1 new_rules_ref of
                       None \<Rightarrow> None
                     | Some new \<Rightarrow>
                         (case compare_loop_refs g m final new (h1, log) of
                            None \<Rightarrow> None
                          | Some (h2, log') \<Rightarrow> Some (final, h2, log'))))))"

text \<open>The rules a list object of the store holds, read through its items.\<close>

definition rules_of :: "store \<Rightarrow> addr list \<Rightarrow> ProcessedRule list option" where
  "rules_of h items = those (map (read_rule h) items)"

definition rules_at :: "store \<Rightarrow> addr \<Rightarrow> ProcessedRule list option" where
  "rules_at h l = (case read_list h l of None \<Rightarrow> None | Some items \<Rightarrow> rules_of h items)"

section \<open>Vocabulary of the statements\<close>

text \<open>
  What the semantic-equivalence classifier reports when it is asked, as call
  number \<open>k\<close>, about the prior rule \<open>p\<close> and the candidate \<open>n\<close>: \<open>Inr result\<close> when
  the model answers with a non-empty text that validates, \<open>Inl e\<close> when the call
  fails (the call raises, the text is missing or empty, or validation raises),
  \<open>e\<close> being the \<open>str\<close> of the exception.
\<close>

definition classify ::
  "gemini \<Rightarrow> nat \<Rightarrow> ProcessedRule \<Rightarrow> ProcessedRule \<Rightarrow> string + RuleComparisonResult" where
  "classify g k p n =
     (case generate_content g k (build_comparison_prompt p n) of
        Raises e \<Rightarrow> Inl e
      | Response None \<Rightarrow> Inl ''Gemini returned empty response''
      | Response (Some t) \<Rightarrow>
          if t = [] then Inl ''Gemini returned empty response'' else validate_comparison g t)"

text \<open>
  The candidates among the first \<open>i\<close> of \<open>new_rules\<close> whose citation is a key of
  the map: one classifier call is made for each, so the call for the candidate
  at position \<open>i\<close> has number \<open>length log + length (matched_before m new_rules i)\<close>.
\<close>

definition matched_before ::
  "(string \<rightharpoonup> ProcessedRule) \<Rightarrow> ProcessedRule list \<Rightarrow> nat \<Rightarrow> ProcessedRule list" where
  "matched_before m new_rules i =
     filter (\<lambda>n. m (ProcessedRule.rule_text_citation n) \<noteq> None) (take i new_rules)"

text \<open>The rules an extraction attempt contributes to the batch: its result, or nothing when it failed.\<close>

fun successes :: "string + ProcessedRule list \<Rightarrow> ProcessedRule list" where
  "successes (Inl e) = []"
| "successes (Inr extracted_rules) = extracted_rules"

definition is_comparison :: "prompt \<Rightarrow> bool" where
  "is_comparison p = (case p of ComparisonPrompt a b c d \<Rightarrow> True | ExtractionPrompt t \<Rightarrow> False)"

text \<open>
  What the loop of \<open>compare_rule_sets\<close> emits for a candidate \<open>n\<close> matched with the
  prior rule \<open>p\<close> when the classifier is asked as call number \<open>k\<close>.
\<close>

definition verdict :: "gemini \<Rightarrow> nat \<Rightarrow> ProcessedRule \<Rightarrow> ProcessedRule \<Rightarrow> ProcessedRule" where
  "verdict g k p n =
     (case classify g k p n of
        Inl e \<Rightarrow> with_status n UPDATED (Some (''Comparison error: '' @ e))
      | Inr r \<Rightarrow>
          if are_equivalent r then with_status n UNCHANGED None
          else with_status n UPDATED (RuleComparisonResult.change_reason r))"

section \<open>Scenarios\<close>

text \<open>
  A prior rule set in which the citation \<open>ARM 42.39.301(1)\<close> occurs twice, and
  four candidates: the first and the last carry that citation, the second a
  citation unknown to the prior set, the third the citation of the second prior
  rule. The model answers the first classifier call with "equivalent", the second
  with "changed" and a reason, and fails at every later call.
\<close>

definition demo_prior :: "ProcessedRule list" where
  "demo_prior =
     [\<lparr> ProcessedRule.rule_name = ''THC Content Labeling'',
         rule_description = ''10mg per serving'',
         rule_text_citation = ''ARM 42.39.301(1)'',
         status = NEW, change_reason = None \<rparr>,
      \<lparr> ProcessedRule.rule_name = ''Warning Statement'',
         rule_description = ''Keep out of reach of children'',
         rule_text_citation = ''ARM 42.39.301(2)'',
         status = UNCHANGED, change_reason = None \<rparr>,
      \<lparr> ProcessedRule.rule_name = ''THC Content Labeling (revised)'',
         rule_description = ''12mg per serving'',
         rule_text_citation = ''ARM 42.39.301(1)'',
         status = UPDATED, change_reason = Some ''limit raised'' \<rparr>]"

definition demo_new :: "ProcessedRule list" where
  "demo_new =
     [\<lparr> ProcessedRule.rule_name = ''THC Content Labeling'',
         rule_description = ''12 mg per serving'',
         rule_text_citation = ''ARM 42.39.301(1)'',
         status = NEW, change_reason = None \<rparr>,
      \<lparr> ProcessedRule.rule_name = ''Font Size'',
         rule_description = ''At least 6 point type'',
         rule_text_citation = ''ARM 42.39.301(3)'',
         status = NEW, change_reason = None \<rparr>,
      \<lparr> ProcessedRule.rule_name = ''Warning Statement'',
         rule_description = ''Keep out of reach of children and pets'',
         rule_text_citation = ''ARM 42.39.301(2)'',
         status = NEW, change_reason = None \<rparr>,
      \<lparr> ProcessedRule.rule_name = ''THC Per Package'',
         rule_description = ''100mg per package'',
         rule_text_citation = ''ARM 42.39.301(1)'',
         status = NEW, change_reason = None \<rparr>]"

definition demo_validate_comparison :: "string \<Rightarrow> string + RuleComparisonResult" where
  "demo_validate_comparison t =
     (if t = ''equivalent'' then Inr \<lparr> are_equivalent = True, change_reason = None \<rparr>
      else if t = ''changed'' then
        Inr \<lparr> are_equivalent = False, change_reason = Some ''Warning now also names pets'' \<rparr>
      else if t = ''changed, no reason'' then
        Inr \<lparr> are_equivalent = False, change_reason = None \<rparr>
      else Inl ''Invalid JSON'')"

definition demo_gemini :: gemini where
  "demo_gemini =
     \<lparr> generate_content =
         (\<lambda>k p. if k = 0 then Response (Some ''equivalent'')
                else if k = 1 then Response (Some ''changed'')
                else Raises ''timeout''),
       validate_extraction = (\<lambda>t. Inl ''Invalid JSON''),
       validate_comparison = demo_validate_comparison \<rparr>"

text \<open>A model that answers every classifier call with "not equivalent" and gives no reason.\<close>

definition terse_gemini :: gemini where
  "terse_gemini =
     \<lparr> generate_content = (\<lambda>k p. Response (Some ''changed, no reason'')),
       validate_extraction = (\<lambda>t. Inl ''Invalid JSON''),
       validate_comparison = demo_validate_comparison \<rparr>"

text \<open>
  The store of a caller that holds the prior rules at the addresses 0 to 2, the
  candidates at 3 to 6, the list of the prior rules at 7 and the list of the
  candidates at 8.
\<close>

definition demo_store :: store where
  "demo_store = map RuleObj demo_prior @ map RuleObj demo_new @ [ListObj [0, 1, 2], ListObj [3, 4, 5, 6]]"

text \<open>
  Three scraped rules and a model that echoes: asked to extract, it answers
  with the rule text, which validates as one extracted rule describing that
  text; its second call (call number 1) raises. A world in which the scrape
  returns the three rules, and one in which the scrape raises.
\<close>

definition demo_scraped :: "Rule list" where
  "demo_scraped =
     [\<lparr> rule_number = ''42.39.301'', effective_date = ''2023-01-01'',
         rule_text = ''Display THC content in milligrams'',
         rule_text_citation = ''ARM 42.39.301(1)'' \<rparr>,
      \<lparr> rule_number = ''42.39.302'', effective_date = ''2023-01-01'',
         rule_text = ''Display the warning statement'',
         rule_text_citation = ''ARM 42.39.302(1)'' \<rparr>,
      \<lparr> rule_number = ''42.39.303'', effective_date = ''2023-06-01'',
         rule_text = ''Use at least 6 point type'',
         rule_text_citation = ''ARM 42.39.303(1)'' \<rparr>]"

definition echo_gemini :: gemini where
  "echo_gemini =
     \<lparr> generate_content =
         (\<lambda>k p. if k = 1 then Raises ''quota exceeded''
                else (case p of
                        ExtractionPrompt t \<Rightarrow> Response (Some t)
                      | ComparisonPrompt a b c d \<Rightarrow> Response (Some ''equivalent''))),
       validate_extraction =
         (\<lambda>t. Inr \<lparr> rules = [\<lparr> ExtractedRule.rule_name = ''Requirement'', rule_description = t \<rparr>] \<rparr>),
       validate_comparison = demo_validate_comparison \<rparr>"

definition demo_world :: world where
  "demo_world =
     \<lparr> firecrawl = (\<lambda>st pt. Inr (demo_scraped, ''https://rules.mt.gov/'')),
       gemini_init = (\<lambda>k. None),
       gemini_client = echo_gemini \<rparr>"

definition failing_world :: world where
  "failing_world =
     \<lparr> firecrawl = (\<lambda>st pt. Inl ''Firecrawl extraction failed: timeout''),
       gemini_init = (\<lambda>k. None),
       gemini_client = echo_gemini \<rparr>"

definition fresh_effects :: effects where
  "fresh_effects = \<lparr> gemini_service = False, init_attempts = 0, calls = [] \<rparr>"

section \<open>Properties of the reconciliation loop\<close>

lemmas demo_defs = demo_prior_def demo_new_def demo_validate_comparison_def demo_gemini_def

lemma compare_rules_fst:
  "fst (compare_rules g log p n) =
     (case classify g (length log) p n of
        Inl e \<Rightarrow> (UPDATED, Some (''Comparison error: '' @ e))
      | Inr r \<Rightarrow> if are_equivalent r then (UNCHANGED, None)
                 else (UPDATED, RuleComparisonResult.change_reason r))"
  by (simp add: compare_rules_def classify_def generate_def Let_def
        split: reply.splits option.splits sum.splits)

lemma compare_rules_snd:
  "snd (compare_rules g log p n) = log @ [build_comparison_prompt p n]"
  by (simp add: compare_rules_def generate_def Let_def)

text \<open>The accumulator of the loop is a prefix of its result.\<close>

lemma compare_loop_acc:
  "compare_loop g m N (acc, log) =
     (acc @ fst (compare_loop g m N ([], log)), snd (compare_loop g m N ([], log)))"
proof (induction N arbitrary: acc log)
  case Nil
  show ?case by simp
next
  case (Cons n rest)
  show ?case
  proof (cases "m (ProcessedRule.rule_text_citation n)")
    case None
    then show ?thesis
      using Cons.IH [of "acc @ [x]" log for x] Cons.IH [of "[x]" log for x]
      by simp
  next
    case (Some p)
    obtain s r log' where cr: "compare_rules g log p n = ((s, r), log')"
      by (metis surj_pair)
    show ?thesis
      using Some cr Cons.IH [of "acc @ [x]" log' for x] Cons.IH [of "[x]" log' for x]
      by simp
  qed
qed

lemma compare_loop_unmatched:
  assumes "m (ProcessedRule.rule_text_citation n) = None"
  shows "compare_loop g m (n # rest) ([], log) =
           (with_status n NEW None # fst (compare_loop g m rest ([], log)),
            snd (compare_loop g m rest ([], log)))"
  using assms compare_loop_acc [of g m rest "[with_status n NEW None]" log] by simp

lemma compare_loop_matched:
  assumes "m (ProcessedRule.rule_text_citation n) = Some p"
  shows "compare_loop g m (n # rest) ([], log) =
           (verdict g (length log) p n
              # fst (compare_loop g m rest ([], log @ [build_comparison_prompt p n])),
            snd (compare_loop g m rest ([], log @ [build_comparison_prompt p n])))"
proof -
  obtain s r log' where cr: "compare_rules g log p n = ((s, r), log')"
    by (metis surj_pair)
  have l: "log' = log @ [build_comparison_prompt p n]"
    using compare_rules_snd [of g log p n] cr by simp
  have v: "with_status n s r = verdict g (length log) p n"
    using compare_rules_fst [of g log p n] cr
    by (auto simp: verdict_def split: sum.splits if_splits)
  show ?thesis
    using assms cr l v compare_loop_acc [of g m rest "[with_status n s r]" log'] by simp
qed

lemma compare_loop_length:
  "length (fst (compare_loop g m N ([], log))) = length N"
proof (induction N arbitrary: log)
  case Nil
  show ?case by simp
next
  case (Cons n rest)
  show ?case
    by (cases "m (ProcessedRule.rule_text_citation n)")
       (simp_all only: compare_loop_unmatched compare_loop_matched fst_conv list.size Cons.IH)
qed

text \<open>The element emitted at position \<open>i\<close>.\<close>

lemma compare_loop_nth:
  "i < length N \<Longrightarrow>
   fst (compare_loop g m N ([], log)) ! i =
     (case m (ProcessedRule.rule_text_citation (N ! i)) of
        None \<Rightarrow> with_status (N ! i) NEW None
      | Some p \<Rightarrow> verdict g (length log + length (matched_before m N i)) p (N ! i))"
proof (induction N arbitrary: i log)
  case Nil
  then show ?case by simp
next
  case (Cons n rest)
  show ?case
  proof (cases i)
    case 0
    then show ?thesis
      by (cases "m (ProcessedRule.rule_text_citation n)")
         (simp_all add: compare_loop_unmatched compare_loop_matched matched_before_def
            del: compare_loop.simps)
  next
    case (Suc j)
    then have j: "j < length rest" using Cons.prems by simp
    show ?thesis
    proof (cases "m (ProcessedRule.rule_text_citation n)")
      case None
      then show ?thesis
        using Suc Cons.IH [OF j, of log]
        by (simp add: compare_loop_unmatched matched_before_def del: compare_loop.simps
              split: option.splits)
    next
      case (Some p)
      then show ?thesis
        using Suc Cons.IH [OF j, of "log @ [build_comparison_prompt p n]"]
        by (simp add: compare_loop_matched matched_before_def del: compare_loop.simps
              split: option.splits)
    qed
  qed
qed

text \<open>The classifier calls the loop makes, in order.\<close>

lemma compare_loop_log:
  "snd (compare_loop g m N ([], log)) =
     log @ map (\<lambda>n. build_comparison_prompt (the (m (ProcessedRule.rule_text_citation n))) n)
              (filter (\<lambda>n. m (ProcessedRule.rule_text_citation n) \<noteq> None) N)"
proof (induction N arbitrary: log)
  case Nil
  show ?case by simp
next
  case (Cons n rest)
  show ?case
  proof (cases "m (ProcessedRule.rule_text_citation n)")
    case None
    then show ?thesis
      using Cons.IH [of log] by (simp add: compare_loop_unmatched del: compare_loop.simps)
  next
    case (Some p)
    then show ?thesis
      using Cons.IH [of "log @ [build_comparison_prompt p n]"]
      by (simp add: compare_loop_matched del: compare_loop.simps)
  qed
qed

lemma with_status_sel [simp]:
  "ProcessedRule.rule_name (with_status n s r) = ProcessedRule.rule_name n"
  "ProcessedRule.rule_description (with_status n s r) = ProcessedRule.rule_description n"
  "ProcessedRule.rule_text_citation (with_status n s r) = ProcessedRule.rule_text_citation n"
  "status (with_status n s r) = s"
  "ProcessedRule.change_reason (with_status n s r) = r"
  by (simp_all add: with_status_def)

lemma verdict_sel [simp]:
  "ProcessedRule.rule_name (verdict g k p n) = ProcessedRule.rule_name n"
  "ProcessedRule.rule_description (verdict g k p n) = ProcessedRule.rule_description n"
  "ProcessedRule.rule_text_citation (verdict g k p n) = ProcessedRule.rule_text_citation n"
  by (simp_all add: verdict_def split: sum.splits)

text \<open>The dict comprehension keeps, for every citation, the last rule of the list that carries it.\<close>

lemma fold_upd_lookup:
  "fold (\<lambda>rule m. m(ProcessedRule.rule_text_citation rule \<mapsto> rule)) P m0 c =
     (case filter (\<lambda>r. ProcessedRule.rule_text_citation r = c) P of
        [] \<Rightarrow> m0 c
      | x # xs \<Rightarrow> Some (last (x # xs)))"
proof (induction P arbitrary: m0)
  case Nil
  show ?case by simp
next
  case (Cons a P)
  show ?case
    using Cons.IH [of "m0(ProcessedRule.rule_text_citation a \<mapsto> a)"]
    by (auto split: list.splits)
qed

lemma existing_map_lookup:
  "existing_map P c =
     (case filter (\<lambda>r. ProcessedRule.rule_text_citation r = c) P of
        [] \<Rightarrow> None
      | x # xs \<Rightarrow> Some (last (x # xs)))"
  by (simp add: existing_map_def fold_upd_lookup)

lemma existing_map_None:
  "existing_map P c = None \<longleftrightarrow> c \<notin> ProcessedRule.rule_text_citation ` set P"
proof -
  have "(filter (\<lambda>r. ProcessedRule.rule_text_citation r = c) P = []) \<longleftrightarrow>
        c \<notin> ProcessedRule.rule_text_citation ` set P"
    by (auto simp: filter_empty_conv)
  then show ?thesis
    by (cases "filter (\<lambda>r. ProcessedRule.rule_text_citation r = c) P")
       (simp_all add: existing_map_lookup)
qed

lemma compare_citations:
  "map ProcessedRule.rule_text_citation (fst (compare_loop g m N ([], log))) =
     map ProcessedRule.rule_text_citation N"
  by (rule nth_equalityI) (simp_all add: compare_loop_length compare_loop_nth split: option.splits)

lemma compare_names:
  "map ProcessedRule.rule_name (fst (compare_loop g m N ([], log))) =
     map ProcessedRule.rule_name N"
  by (rule nth_equalityI) (simp_all add: compare_loop_length compare_loop_nth split: option.splits)

lemma compare_descriptions:
  "map ProcessedRule.rule_description (fst (compare_loop g m N ([], log))) =
     map ProcessedRule.rule_description N"
  by (rule nth_equalityI) (simp_all add: compare_loop_length compare_loop_nth split: option.splits)

section \<open>Claims about the reconciliation engine\<close>

text \<open>
  C2. For all prior rule sets \<open>P\<close> and candidate rule sets \<open>N\<close>, the output of
  \<open>compare_rule_sets\<close> has exactly the length of \<open>N\<close> and is in the order of \<open>N\<close>:
  the citations, the names and the descriptions of the output, read in order,
  are those of \<open>N\<close>.
\<close>

theorem compare_rule_sets_length_order:
  "length (fst (compare_rule_sets g log P N)) = length N \<and>
   map ProcessedRule.rule_text_citation (fst (compare_rule_sets g log P N)) =
     map ProcessedRule.rule_text_citation N \<and>
   map ProcessedRule.rule_name (fst (compare_rule_sets g log P N)) =
     map ProcessedRule.rule_name N \<and>
   map ProcessedRule.rule_description (fst (compare_rule_sets g log P N)) =
     map ProcessedRule.rule_description N"
  by (simp add: compare_rule_sets_def compare_loop_length compare_citations compare_names
        compare_descriptions)

theorem compare_rule_sets_length_order_witness:
  "length (fst (compare_rule_sets demo_gemini [] demo_prior demo_new)) = 4 \<and>
   map ProcessedRule.rule_text_citation (fst (compare_rule_sets demo_gemini [] demo_prior demo_new)) =
     [''ARM 42.39.301(1)'', ''ARM 42.39.301(3)'', ''ARM 42.39.301(2)'', ''ARM 42.39.301(1)'']"
  using compare_rule_sets_length_order [of demo_gemini "[]" demo_prior demo_new]
  by (simp add: demo_new_def)

text \<open>
  C3. For the candidate \<open>n\<close> at position \<open>i\<close> of \<open>N\<close>: if its citation is not the
  citation of any rule of \<open>P\<close>, the emitted rule has status \<open>NEW\<close> and no reason,
  whatever its description; if its citation is bound to the prior rule \<open>p\<close> and
  the classifier reports \<open>are_equivalent = True\<close>, the emitted rule has status
  \<open>UNCHANGED\<close> and no reason; if the classifier reports \<open>are_equivalent = False\<close>,
  the emitted rule has status \<open>UPDATED\<close> and the classifier's reason.
\<close>

theorem compare_rule_sets_status:
  assumes "i < length N"
  shows "let n = N ! i;
             out = fst (compare_rule_sets g log P N) ! i;
             k = length log + length (matched_before (existing_map P) N i)
         in (ProcessedRule.rule_text_citation n \<notin> ProcessedRule.rule_text_citation ` set P \<longrightarrow>
               status out = NEW \<and> ProcessedRule.change_reason out = None) \<and>
            (\<forall>p r. existing_map P (ProcessedRule.rule_text_citation n) = Some p \<and>
                   classify g k p n = Inr r \<and> are_equivalent r \<longrightarrow>
               status out = UNCHANGED \<and> ProcessedRule.change_reason out = None) \<and>
            (\<forall>p r. existing_map P (ProcessedRule.rule_text_citation n) = Some p \<and>
                   classify g k p n = Inr r \<and> \<not> are_equivalent r \<longrightarrow>
               status out = UPDATED \<and>
               ProcessedRule.change_reason out = RuleComparisonResult.change_reason r)"
  using assms existing_map_None [of P "ProcessedRule.rule_text_citation (N ! i)"]
  by (auto simp: Let_def compare_rule_sets_def compare_loop_nth verdict_def)

theorem compare_rule_sets_status_witness:
  "status (fst (compare_rule_sets demo_gemini [] demo_prior demo_new) ! 0) = UNCHANGED \<and>
   ProcessedRule.change_reason (fst (compare_rule_sets demo_gemini [] demo_prior demo_new) ! 0) = None \<and>
   status (fst (compare_rule_sets demo_gemini [] demo_prior demo_new) ! 1) = NEW \<and>
   ProcessedRule.change_reason (fst (compare_rule_sets demo_gemini [] demo_prior demo_new) ! 1) = None \<and>
   status (fst (compare_rule_sets demo_gemini [] demo_prior demo_new) ! 2) = UPDATED \<and>
   ProcessedRule.change_reason (fst (compare_rule_sets demo_gemini [] demo_prior demo_new) ! 2) =
     Some ''Warning now also names pets''"
  using compare_rule_sets_status [of 0 demo_new demo_gemini "[]" demo_prior]
        compare_rule_sets_status [of 1 demo_new demo_gemini "[]" demo_prior]
        compare_rule_sets_status [of 2 demo_new demo_gemini "[]" demo_prior]
  by (simp add: Let_def demo_defs existing_map_def classify_def matched_before_def
        build_comparison_prompt_def numeral_2_eq_2)

text \<open>
  C5. For a candidate at position \<open>i\<close> whose citation is bound to the prior rule
  \<open>p\<close>: if the classifier call made for it fails (the call raises, the response
  text is missing or empty, or the response does not validate; \<open>e\<close> the message of
  the exception), the rule is not dropped and nothing is raised: the output has
  the length of \<open>N\<close>, and the rule emitted at position \<open>i\<close> is the candidate with
  status \<open>UPDATED\<close> and the reason \<open>Comparison error: e\<close>.
\<close>

theorem compare_rule_sets_classifier_failure:
  assumes "i < length N"
    and "existing_map P (ProcessedRule.rule_text_citation (N ! i)) = Some p"
    and "classify g (length log + length (matched_before (existing_map P) N i)) p (N ! i) = Inl e"
  shows "length (fst (compare_rule_sets g log P N)) = length N \<and>
         fst (compare_rule_sets g log P N) ! i =
           with_status (N ! i) UPDATED (Some (''Comparison error: '' @ e)) \<and>
         status (fst (compare_rule_sets g log P N) ! i) = UPDATED \<and>
         ProcessedRule.change_reason (fst (compare_rule_sets g log P N) ! i) \<noteq> None"
  using assms
  by (simp add: compare_rule_sets_def compare_loop_length compare_loop_nth verdict_def)

theorem compare_rule_sets_classifier_failure_witness:
  "3 < length demo_new \<and>
   existing_map demo_prior (ProcessedRule.rule_text_citation (demo_new ! 3)) = Some (demo_prior ! 2) \<and>
   generate_content demo_gemini 2 (build_comparison_prompt (demo_prior ! 2) (demo_new ! 3)) =
     Raises ''timeout'' \<and>
   length (fst (compare_rule_sets demo_gemini [] demo_prior demo_new)) = 4 \<and>
   fst (compare_rule_sets demo_gemini [] demo_prior demo_new) ! 3 =
     \<lparr> ProcessedRule.rule_name = ''THC Per Package'',
       rule_description = ''100mg per package'',
       rule_text_citation = ''ARM 42.39.301(1)'',
       status = UPDATED,
       change_reason = Some ''Comparison error: timeout'' \<rparr>"
proof -
  have i: "3 < length demo_new"
    by (simp add: demo_new_def)
  have m: "existing_map demo_prior (ProcessedRule.rule_text_citation (demo_new ! 3)) =
             Some (demo_prior ! 2)"
    by (simp add: demo_defs existing_map_def)
  have k: "length ([]::prompt list) + length (matched_before (existing_map demo_prior) demo_new 3) = 2"
    by (simp add: demo_defs existing_map_def matched_before_def numeral_3_eq_3)
  have g: "generate_content demo_gemini 2 (build_comparison_prompt (demo_prior ! 2) (demo_new ! 3)) =
             Raises ''timeout''"
    by (simp add: demo_gemini_def)
  have c: "classify demo_gemini
             (length ([]::prompt list) + length (matched_before (existing_map demo_prior) demo_new 3))
             (demo_prior ! 2) (demo_new ! 3) = Inl ''timeout''"
    unfolding k by (simp add: classify_def g)
  show ?thesis
    using compare_rule_sets_classifier_failure [OF i m c] i m g
    by (simp add: with_status_def demo_new_def)
qed


text \<open>
  The two directions of the \<open>change_reason\<close> invariant on what \<open>compare_rule_sets\<close>
  emits. A rule emitted with a reason has status \<open>UPDATED\<close>, whatever the
  classifier answers.
\<close>

lemma reason_only_when_updated:
  assumes "i < length N"
    and "ProcessedRule.change_reason (fst (compare_rule_sets g log P N) ! i) \<noteq> None"
  shows "status (fst (compare_rule_sets g log P N) ! i) = UPDATED"
  using assms
  by (auto simp: compare_rule_sets_def compare_loop_nth verdict_def
        split: option.splits sum.splits if_splits)

text \<open>
  A rule emitted with status \<open>UPDATED\<close> has a reason as long as the classifier
  gives one with every "not equivalent" answer, as its prompt asks it to ("If
  there are differences, explain specifically what changed").
\<close>

lemma updated_has_reason_under_contract:
  assumes "i < length N"
    and "\<forall>k p n r. classify g k p n = Inr r \<and> \<not> are_equivalent r \<longrightarrow>
           RuleComparisonResult.change_reason r \<noteq> None"
    and "status (fst (compare_rule_sets g log P N) ! i) = UPDATED"
  shows "ProcessedRule.change_reason (fst (compare_rule_sets g log P N) ! i) \<noteq> None"
proof (cases "existing_map P (ProcessedRule.rule_text_citation (N ! i))")
  case None
  then show ?thesis
    using assms(1,3) by (simp add: compare_rule_sets_def compare_loop_nth)
next
  case (Some p)
  define k where "k = length log + length (matched_before (existing_map P) N i)"
  have out: "fst (compare_rule_sets g log P N) ! i = verdict g k p (N ! i)"
    using assms(1) Some by (simp add: compare_rule_sets_def compare_loop_nth k_def)
  show ?thesis
  proof (cases "classify g k p (N ! i)")
    case (Inl e)
    then show ?thesis by (simp add: out verdict_def)
  next
    case (Inr r)
    have ne: "\<not> are_equivalent r"
      using assms(3) Inr by (auto simp: out verdict_def split: if_splits)
    then have "RuleComparisonResult.change_reason r \<noteq> None"
      using assms(2) Inr by blast
    then show ?thesis
      using Inr ne by (simp add: out verdict_def)
  qed
qed

text \<open>
  C7. Every rule emitted with status \<open>UPDATED\<close> should carry a reason. The code
  does not see to it: \<open>change_reason\<close> is optional in \<open>RuleComparisonResult\<close>, and
  \<open>compare_rules\<close> returns it unchecked. Where the classifier's answer to the
  first call validates as "not equivalent" with no reason, the rule emitted for
  the first candidate has status \<open>UPDATED\<close> and \<open>change_reason = None\<close>, while the
  \<open>except\<close> branch of the same function always supplies a reason with
  \<open>UPDATED\<close>.
\<close>

theorem updated_without_reason:
  "classify terse_gemini 0 (demo_prior ! 2) (demo_new ! 0) =
     Inr \<lparr> are_equivalent = False, change_reason = None \<rparr> \<and>
   fst (compare_rule_sets terse_gemini [] demo_prior demo_new) ! 0 =
     \<lparr> ProcessedRule.rule_name = ''THC Content Labeling'',
       rule_description = ''12 mg per serving'',
       rule_text_citation = ''ARM 42.39.301(1)'',
       status = UPDATED,
       change_reason = None \<rparr>"
  by (simp add: terse_gemini_def demo_defs classify_def compare_rule_sets_def existing_map_def
        compare_rules_def generate_def with_status_def Let_def)

text \<open>
  C8. The map built from \<open>P\<close> binds a citation to the last rule of \<open>P\<close> that carries
  it (and to nothing when no rule of \<open>P\<close> carries it), and the classifier calls
  made by \<open>compare_rule_sets\<close> are, in the order of \<open>N\<close>, one for every candidate
  whose citation occurs in \<open>P\<close>, each comparing the candidate against the last
  rule of \<open>P\<close> with that citation.
\<close>

theorem existing_map_last_write_wins:
  "existing_map P c =
     (case filter (\<lambda>r. ProcessedRule.rule_text_citation r = c) P of
        [] \<Rightarrow> None
      | x # xs \<Rightarrow> Some (last (x # xs))) \<and>
   snd (compare_rule_sets g log P N) =
     log @ map (\<lambda>n. build_comparison_prompt
                       (last (filter (\<lambda>r. ProcessedRule.rule_text_citation r =
                                            ProcessedRule.rule_text_citation n) P)) n)
              (filter (\<lambda>n. ProcessedRule.rule_text_citation n \<in>
                              ProcessedRule.rule_text_citation ` set P) N)"
proof -
  have "map (\<lambda>n. build_comparison_prompt (the (existing_map P (ProcessedRule.rule_text_citation n))) n)
          (filter (\<lambda>n. existing_map P (ProcessedRule.rule_text_citation n) \<noteq> None) N) =
        map (\<lambda>n. build_comparison_prompt
                       (last (filter (\<lambda>r. ProcessedRule.rule_text_citation r =
                                            ProcessedRule.rule_text_citation n) P)) n)
              (filter (\<lambda>n. ProcessedRule.rule_text_citation n \<in>
                              ProcessedRule.rule_text_citation ` set P) N)"
  proof (induction N)
    case Nil
    show ?case by simp
  next
    case (Cons n N)
    show ?case
      using Cons.IH existing_map_None [of P "ProcessedRule.rule_text_citation n"]
      by (auto simp: existing_map_lookup split: list.splits)
  qed
  then show ?thesis
    by (simp add: existing_map_lookup compare_rule_sets_def compare_loop_log)
qed

theorem existing_map_last_write_wins_witness:
  "existing_map demo_prior ''ARM 42.39.301(1)'' =
     Some \<lparr> ProcessedRule.rule_name = ''THC Content Labeling (revised)'',
            rule_description = ''12mg per serving'',
            rule_text_citation = ''ARM 42.39.301(1)'',
            status = UPDATED, change_reason = Some ''limit raised'' \<rparr> \<and>
   snd (compare_rule_sets demo_gemini [] demo_prior demo_new) =
     [ComparisonPrompt ''THC Content Labeling (revised)'' ''12mg per serving''
        ''THC Content Labeling'' ''12 mg per serving'',
      ComparisonPrompt ''Warning Statement'' ''Keep out of reach of children''
        ''Warning Statement'' ''Keep out of reach of children and pets'',
      ComparisonPrompt ''THC Content Labeling (revised)'' ''12mg per serving''
        ''THC Per Package'' ''100mg per package'']"
  using existing_map_last_write_wins [of demo_prior "''ARM 42.39.301(1)''" demo_gemini "[]" demo_new]
  by (simp add: demo_prior_def demo_new_def build_comparison_prompt_def)

section \<open>Claims about batch extraction\<close>

lemmas pipeline_demo_defs = demo_scraped_def echo_gemini_def demo_world_def failing_world_def
  fresh_effects_def

lemma extract_rules_from_text_snd:
  "snd (extract_rules_from_text g log t c) = log @ [build_extraction_prompt t]"
  by (simp add: extract_rules_from_text_def generate_def Let_def)

lemma extract_loop_acc:
  "extract_loop g rs (acc, log) =
     (acc @ fst (extract_loop g rs ([], log)), snd (extract_loop g rs ([], log)))"
proof (induction rs arbitrary: acc log)
  case Nil
  show ?case by simp
next
  case (Cons r rest)
  obtain res log' where e:
    "extract_rules_from_text g log (rule_text r) (Rule.rule_text_citation r) = (res, log')"
    by (metis surj_pair)
  show ?case
  proof (cases res)
    case (Inl err)
    then show ?thesis using e Cons.IH [of acc log'] by simp
  next
    case (Inr xs)
    then show ?thesis using e Cons.IH [of "acc @ xs" log'] Cons.IH [of xs log'] by simp
  qed
qed

lemma extract_loop_Cons:
  "extract_loop g (r # rest) ([], log) =
     (successes (fst (extract_rules_from_text g log (rule_text r) (Rule.rule_text_citation r)))
        @ fst (extract_loop g rest ([], log @ [build_extraction_prompt (rule_text r)])),
      snd (extract_loop g rest ([], log @ [build_extraction_prompt (rule_text r)])))"
proof -
  obtain res log' where e:
    "extract_rules_from_text g log (rule_text r) (Rule.rule_text_citation r) = (res, log')"
    by (metis surj_pair)
  have l: "log' = log @ [build_extraction_prompt (rule_text r)]"
    using extract_rules_from_text_snd [of g log "rule_text r" "Rule.rule_text_citation r"] e
    by simp
  show ?thesis
  proof (cases res)
    case (Inl err)
    then show ?thesis using e l by simp
  next
    case (Inr xs)
    then show ?thesis using e l extract_loop_acc [of g rest xs log'] by simp
  qed
qed

lemma extract_loop_log:
  "snd (extract_loop g rs ([], log)) = log @ map (\<lambda>r. build_extraction_prompt (rule_text r)) rs"
proof (induction rs arbitrary: log)
  case Nil
  show ?case by simp
next
  case (Cons r rest)
  show ?case
    using Cons.IH [of "log @ [build_extraction_prompt (rule_text r)]"]
    by (simp add: extract_loop_Cons del: extract_loop.simps)
qed

lemma extract_loop_concat:
  "fst (extract_loop g rs ([], log)) =
     concat (map (\<lambda>i. successes (fst (extract_rules_from_text g
                          (log @ map (\<lambda>r. build_extraction_prompt (rule_text r)) (take i rs))
                          (rule_text (rs ! i)) (Rule.rule_text_citation (rs ! i)))))
                 [0..<length rs])"
proof (induction rs arbitrary: log)
  case Nil
  show ?case by simp
next
  case (Cons r rest)
  have u: "[0..<length (r # rest)] = 0 # map Suc [0..<length rest]"
    by (simp add: upt_conv_Cons map_Suc_upt del: upt_Suc)
  show ?case
    unfolding u
    using Cons.IH [of "log @ [build_extraction_prompt (rule_text r)]"]
    by (simp add: extract_loop_Cons comp_def del: extract_loop.simps upt_Suc)
qed

text \<open>
  C6. For every sequence of raw rules, the output of the batch extraction is
  the concatenation, in input order, of what the extraction of each raw rule
  returned, a failed extraction contributing nothing: the item at position \<open>i\<close>
  is attempted after the calls made for the items before it, whatever their
  outcome, and every item is attempted exactly once. The stage reports no
  error for it: once the Gemini service is available, \<open>extract_rules_node\<close>
  returns the batch output with \<open>error = None\<close>.
\<close>

theorem batch_extraction_skips_failures:
  "fst (extract_rules_from_scraped_data g log rs) =
     concat (map (\<lambda>i. successes (fst (extract_rules_from_text g
                          (log @ map (\<lambda>r. build_extraction_prompt (rule_text r)) (take i rs))
                          (rule_text (rs ! i)) (Rule.rule_text_citation (rs ! i)))))
                 [0..<length rs]) \<and>
   snd (extract_rules_from_scraped_data g log rs) =
     log @ map (\<lambda>r. build_extraction_prompt (rule_text r)) rs \<and>
   (fst (get_gemini_service w fx) = None \<longrightarrow>
      upd_error (fst (extract_rules_node w s fx)) = Some None \<and>
      upd_processed_rules (fst (extract_rules_node w s fx)) =
        Some (fst (extract_rules_from_scraped_data (gemini_client w)
                     (calls (snd (get_gemini_service w fx))) (scraped_rules s))))"
proof -
  have node: "fst (get_gemini_service w fx) = None \<longrightarrow>
      upd_error (fst (extract_rules_node w s fx)) = Some None \<and>
      upd_processed_rules (fst (extract_rules_node w s fx)) =
        Some (fst (extract_rules_from_scraped_data (gemini_client w)
                     (calls (snd (get_gemini_service w fx))) (scraped_rules s)))"
    by (cases "get_gemini_service w fx")
       (auto simp: extract_rules_node_def extract_rules_from_scraped_data_def split: prod.splits)
  show ?thesis
    using node
    by (simp only: extract_rules_from_scraped_data_def extract_loop_concat extract_loop_log simp_thms)
qed

theorem batch_extraction_skips_failures_witness:
  "fst (extract_rules_from_text echo_gemini
          [build_extraction_prompt ''Display THC content in milligrams'']
          ''Display the warning statement'' ''ARM 42.39.302(1)'') =
     Inl ''Rule extraction failed: quota exceeded'' \<and>
   fst (extract_rules_from_scraped_data echo_gemini [] demo_scraped) =
     [\<lparr> ProcessedRule.rule_name = ''Requirement'',
         rule_description = ''Display THC content in milligrams'',
         rule_text_citation = ''ARM 42.39.301(1)'', status = NEW, change_reason = None \<rparr>,
      \<lparr> ProcessedRule.rule_name = ''Requirement'',
         rule_description = ''Use at least 6 point type'',
         rule_text_citation = ''ARM 42.39.303(1)'', status = NEW, change_reason = None \<rparr>] \<and>
   upd_error (fst (extract_rules_node demo_world
      (apply_update (create_initial_state MONTANA ''flower'' None)
         (fst (scrape_node demo_world (create_initial_state MONTANA ''flower'' None) fresh_effects)))
      fresh_effects)) = Some None"
proof -
  have u: "[0..<length demo_scraped] = [0, 1, 2]"
    by (simp add: demo_scraped_def upt_rec)
  have s: "fst (get_gemini_service demo_world fresh_effects) = None"
    by (simp add: get_gemini_service_def demo_world_def fresh_effects_def)
  show ?thesis
    using batch_extraction_skips_failures [of echo_gemini "[]" demo_scraped demo_world fresh_effects
        "apply_update (create_initial_state MONTANA ''flower'' None)
         (fst (scrape_node demo_world (create_initial_state MONTANA ''flower'' None) fresh_effects))"] s
    unfolding u
    by (simp add: pipeline_demo_defs extract_rules_from_text_def generate_def Let_def
          build_extraction_prompt_def to_processed_rule_def)
qed

section \<open>Claims about the pipeline\<close>

lemma apply_update_sel [simp]:
  "PipelineState.error (apply_update s u) =
     (case upd_error u of None \<Rightarrow> PipelineState.error s | Some v \<Rightarrow> v)"
  "final_rules (apply_update s u) =
     (case upd_final_rules u of None \<Rightarrow> final_rules s | Some v \<Rightarrow> v)"
  "processed_rules (apply_update s u) =
     (case upd_processed_rules u of None \<Rightarrow> processed_rules s | Some v \<Rightarrow> v)"
  "scraped_rules (apply_update s u) =
     (case upd_scraped_rules u of None \<Rightarrow> scraped_rules s | Some v \<Rightarrow> v)"
  "existing_rules (apply_update s u) = existing_rules s"
  by (simp_all add: apply_update_def)

lemma format_upd_error [simp]:
  "upd_error (format_response_node s) = Some None"
  by (simp add: format_response_node_def)

text \<open>Every path of the graph ends in \<open>format\<close>, which returns \<open>"error": None\<close>.\<close>

lemma ainvoke_error_None:
  "PipelineState.error (fst (ainvoke w s fx)) = None"
  by (simp add: ainvoke_def Let_def split: prod.splits)

lemma run_always_success:
  "success (fst (run_extraction_workflow w fx st pt existing))"
proof -
  obtain fs fx' where a: "ainvoke w (create_initial_state st pt existing) fx = (fs, fx')"
    by (metis surj_pair)
  have "PipelineState.error fs = None"
    using ainvoke_error_None [of w "create_initial_state st pt existing" fx] a by simp
  then show ?thesis
    using a by (simp add: run_extraction_workflow_def build_response_def Let_def)
qed

text \<open>
  C1. The claim is that a request whose scrape fails ends with \<open>success = False\<close>
  and the scrape error in the response, the error still being in the state
  after the extract stage. The code does not do that. At the request for
  Montana and "flower" with no prior rules, in a world where the scrape raises
  "Firecrawl extraction failed: timeout": after \<open>scrape_node\<close> the state holds
  the error \<open>Scraping failed: Firecrawl extraction failed: timeout\<close>;
  \<open>extract_rules_node\<close>, finding no scraped rules, returns \<open>"error": None\<close>, which
  overwrites it; and the response is a success with no rules and no error.
\<close>

theorem scrape_failure_reported_as_success:
  "PipelineState.error
     (apply_update (create_initial_state MONTANA ''flower'' None)
        (fst (scrape_node failing_world (create_initial_state MONTANA ''flower'' None) fresh_effects))) =
     Some ''Scraping failed: Firecrawl extraction failed: timeout'' \<and>
   upd_error
     (fst (extract_rules_node failing_world
        (apply_update (create_initial_state MONTANA ''flower'' None)
           (fst (scrape_node failing_world (create_initial_state MONTANA ''flower'' None) fresh_effects)))
        fresh_effects)) = Some None \<and>
   fst (run_extraction_workflow failing_world fresh_effects MONTANA ''flower'' None) =
     \<lparr> success = True, state = ''montana'', product_type = ''flower'', source_url = [],
       total_rules_extracted = 0, rules = [], error = None \<rparr>"
  by (simp add: run_extraction_workflow_def ainvoke_def scrape_node_def extract_rules_node_def
        should_compare_def format_response_node_def build_response_def create_initial_state_def
        apply_update_def failing_world_def fresh_effects_def Let_def)


text \<open>
  C10. Every response built by \<open>run_extraction_workflow\<close> has
  \<open>total_rules_extracted\<close> equal to the length of \<open>rules\<close>: this holds of the
  response built from any final state, hence of the response of any run; a
  failure response has the count 0 and no rules, and a success response
  returns the list whose length was counted.
\<close>

theorem total_equals_length:
  "total_rules_extracted (build_response st pt final_state) =
     int (length (ExtractionResponse.rules (build_response st pt final_state))) \<and>
   total_rules_extracted (fst (run_extraction_workflow w fx st pt existing)) =
     int (length (ExtractionResponse.rules (fst (run_extraction_workflow w fx st pt existing)))) \<and>
   (\<not> success (build_response st pt final_state) \<longrightarrow>
      total_rules_extracted (build_response st pt final_state) = 0 \<and>
      ExtractionResponse.rules (build_response st pt final_state) = []) \<and>
   (success (build_response st pt final_state) \<longrightarrow>
      ExtractionResponse.rules (build_response st pt final_state) =
        (if final_rules final_state = [] \<and> processed_rules final_state \<noteq> []
         then processed_rules final_state else final_rules final_state))"
proof -
  have b: "\<And>fs. total_rules_extracted (build_response st pt fs) =
             int (length (ExtractionResponse.rules (build_response st pt fs)))"
    by (simp add: build_response_def Let_def)
  have r: "total_rules_extracted (fst (run_extraction_workflow w fx st pt existing)) =
     int (length (ExtractionResponse.rules (fst (run_extraction_workflow w fx st pt existing))))"
    by (simp add: run_extraction_workflow_def b split: prod.splits)
  show ?thesis
    using b [of final_state] r by (simp add: build_response_def Let_def)
qed

theorem total_equals_length_witness:
  "\<not> success (build_response MONTANA ''flower''
       (apply_update (create_initial_state MONTANA ''flower'' None)
          (fst (scrape_node failing_world (create_initial_state MONTANA ''flower'' None) fresh_effects)))) \<and>
   total_rules_extracted (build_response MONTANA ''flower''
       (apply_update (create_initial_state MONTANA ''flower'' None)
          (fst (scrape_node failing_world (create_initial_state MONTANA ''flower'' None) fresh_effects)))) = 0 \<and>
   ExtractionResponse.rules (build_response MONTANA ''flower''
       (apply_update (create_initial_state MONTANA ''flower'' None)
          (fst (scrape_node failing_world (create_initial_state MONTANA ''flower'' None) fresh_effects)))) = [] \<and>
   total_rules_extracted (fst (run_extraction_workflow demo_world fresh_effects MONTANA ''flower'' None)) = 2 \<and>
   length (ExtractionResponse.rules
             (fst (run_extraction_workflow demo_world fresh_effects MONTANA ''flower'' None))) = 2"
proof -
  have f: "\<not> success (build_response MONTANA ''flower''
       (apply_update (create_initial_state MONTANA ''flower'' None)
          (fst (scrape_node failing_world (create_initial_state MONTANA ''flower'' None) fresh_effects))))"
    by (simp add: build_response_def scrape_node_def failing_world_def Let_def)
  have r: "length (ExtractionResponse.rules
             (fst (run_extraction_workflow demo_world fresh_effects MONTANA ''flower'' None))) = 2"
    by (simp add: run_extraction_workflow_def ainvoke_def scrape_node_def extract_rules_node_def
          should_compare_def format_response_node_def build_response_def create_initial_state_def
          apply_update_def get_gemini_service_def extract_rules_from_scraped_data_def
          extract_rules_from_text_def generate_def build_extraction_prompt_def
          pipeline_demo_defs Let_def)
  show ?thesis
    using f r
      total_equals_length [of MONTANA "''flower''"
        "apply_update (create_initial_state MONTANA ''flower'' None)
          (fst (scrape_node failing_world (create_initial_state MONTANA ''flower'' None) fresh_effects))"
        demo_world fresh_effects None]
    by simp
qed

lemma to_processed_rule_new [simp]:
  "status (to_processed_rule c e) = NEW"
  "ProcessedRule.change_reason (to_processed_rule c e) = None"
  by (simp_all add: to_processed_rule_def)

lemma as_new_sel [simp]:
  "status (as_new r) = NEW"
  "ProcessedRule.change_reason (as_new r) = None"
  "ProcessedRule.rule_name (as_new r) = ProcessedRule.rule_name r"
  "ProcessedRule.rule_description (as_new r) = ProcessedRule.rule_description r"
  "ProcessedRule.rule_text_citation (as_new r) = ProcessedRule.rule_text_citation r"
  by (simp_all add: as_new_def)

lemma extract_rules_from_text_new:
  "r \<in> set (successes (fst (extract_rules_from_text g log t c))) \<Longrightarrow>
   status r = NEW \<and> ProcessedRule.change_reason r = None"
  by (auto simp: extract_rules_from_text_def generate_def Let_def
        split: reply.splits option.splits sum.splits if_splits)

lemma extract_loop_new:
  "r \<in> set (fst (extract_loop g rs ([], log))) \<Longrightarrow>
   status r = NEW \<and> ProcessedRule.change_reason r = None"
proof (induction rs arbitrary: log)
  case Nil
  then show ?case by simp
next
  case (Cons a rest)
  then show ?case
    using extract_rules_from_text_new [of r g log "rule_text a" "Rule.rule_text_citation a"]
    by (auto simp: extract_loop_Cons simp del: extract_loop.simps)
qed

lemma extract_loop_no_comparison:
  "filter is_comparison (snd (extract_loop g rs ([], log))) = filter is_comparison log"
  by (simp add: extract_loop_log build_extraction_prompt_def is_comparison_def filter_empty_conv)

lemma get_gemini_service_calls [simp]:
  "calls (snd (get_gemini_service w fx)) = calls fx"
  by (simp add: get_gemini_service_def split: option.splits)

lemma extract_node_facts:
  "upd_final_rules (fst (extract_rules_node w s fx)) = None"
  "\<exists>ps. upd_processed_rules (fst (extract_rules_node w s fx)) = Some ps \<and>
        (\<forall>r \<in> set ps. status r = NEW \<and> ProcessedRule.change_reason r = None)"
  "filter is_comparison (calls (snd (extract_rules_node w s fx))) = filter is_comparison (calls fx)"
proof -
  obtain err fx' where gs: "get_gemini_service w fx = (err, fx')"
    by (metis surj_pair)
  have c: "calls fx' = calls fx"
    using get_gemini_service_calls [of w fx] gs by simp
  obtain ps log' where b:
    "extract_rules_from_scraped_data (gemini_client w) (calls fx') (scraped_rules s) = (ps, log')"
    by (metis surj_pair)
  have new: "\<forall>r \<in> set ps. status r = NEW \<and> ProcessedRule.change_reason r = None"
    using b extract_loop_new [of _ "gemini_client w" "scraped_rules s" "calls fx'"]
    by (auto simp: extract_rules_from_scraped_data_def)
  have log: "filter is_comparison log' = filter is_comparison (calls fx)"
    using b c extract_loop_no_comparison [of "gemini_client w" "scraped_rules s" "calls fx'"]
    by (simp add: extract_rules_from_scraped_data_def)
  show "upd_final_rules (fst (extract_rules_node w s fx)) = None"
    using gs b by (simp add: extract_rules_node_def split: option.splits)
  show "\<exists>ps. upd_processed_rules (fst (extract_rules_node w s fx)) = Some ps \<and>
        (\<forall>r \<in> set ps. status r = NEW \<and> ProcessedRule.change_reason r = None)"
    using gs b new by (simp add: extract_rules_node_def split: option.splits)
  show "filter is_comparison (calls (snd (extract_rules_node w s fx))) = filter is_comparison (calls fx)"
    using gs b c log by (simp add: extract_rules_node_def split: option.splits)
qed

lemma scrape_node_facts [simp]:
  "snd (scrape_node w s fx) = fx"
  "upd_final_rules (fst (scrape_node w s fx)) = None"
  "upd_processed_rules (fst (scrape_node w s fx)) = None"
  by (simp_all add: scrape_node_def split: sum.splits prod.splits)

lemma should_compare_empty:
  "existing_rules s = [] \<Longrightarrow> should_compare s = ''format''"
  by (simp add: should_compare_def)

lemma create_initial_state_empty:
  "existing = None \<or> existing = Some [] \<Longrightarrow>
   existing_rules (create_initial_state st pt existing) = [] \<and>
   final_rules (create_initial_state st pt existing) = []"
  by (auto simp: create_initial_state_def)

text \<open>
  C4. When the prior rule set of a request is empty (absent, or the empty
  list), every rule of the response has status \<open>NEW\<close> and no reason, and the run
  makes no classifier call: the calls it adds to the log are extraction calls
  only. The empty-prior path is chosen before the comparison: on any state with
  no existing rules \<open>should_compare\<close> routes to \<open>format\<close>, and \<open>compare_node\<close> itself
  copies the processed rules as \<open>NEW\<close> without touching the model.
\<close>

theorem empty_prior_fast_path:
  assumes "existing = None \<or> existing = Some []"
  shows "(\<forall>r \<in> set (ExtractionResponse.rules (fst (run_extraction_workflow w fx st pt existing))).
            status r = NEW \<and> ProcessedRule.change_reason r = None) \<and>
         filter is_comparison (calls (snd (run_extraction_workflow w fx st pt existing))) =
           filter is_comparison (calls fx) \<and>
         (\<forall>s. existing_rules s = [] \<longrightarrow>
            should_compare s = ''format'' \<and>
            snd (compare_node w s fx) = fx \<and>
            upd_final_rules (fst (compare_node w s fx)) = Some (map as_new (processed_rules s)))"
proof -
  define s0 where "s0 = create_initial_state st pt existing"
  define s1 where "s1 = apply_update s0 (fst (scrape_node w s0 fx))"
  define u2 where "u2 = fst (extract_rules_node w s1 fx)"
  define fx2 where "fx2 = snd (extract_rules_node w s1 fx)"
  define s2 where "s2 = apply_update s1 u2"
  have e0: "existing_rules s0 = []" and f0: "final_rules s0 = []"
    using create_initial_state_empty [OF assms, of st pt] by (simp_all add: s0_def)
  have e2: "existing_rules s2 = []"
    using e0 by (simp add: s2_def s1_def)
  have f2: "final_rules s2 = []"
    using f0 extract_node_facts(1) [of w s1 fx] by (simp add: s2_def s1_def u2_def)
  obtain ps where ps: "upd_processed_rules u2 = Some ps"
    and new: "\<forall>r \<in> set ps. status r = NEW \<and> ProcessedRule.change_reason r = None"
    using extract_node_facts(2) [of w s1 fx] unfolding u2_def by blast
  have p2: "processed_rules s2 = ps"
    using ps by (simp add: s2_def)
  have log: "filter is_comparison (calls fx2) = filter is_comparison (calls fx)"
    using extract_node_facts(3) [of w s1 fx] by (simp add: fx2_def)
  have inv: "ainvoke w s0 fx = (apply_update s2 (format_response_node s2), fx2)"
    using should_compare_empty [OF e2]
    by (simp add: ainvoke_def Let_def case_prod_beta s1_def s2_def u2_def fx2_def)
  have run: "run_extraction_workflow w fx st pt existing =
               (build_response st pt (apply_update s2 (format_response_node s2)), fx2)"
    using inv by (simp add: run_extraction_workflow_def s0_def)
  have rules: "set (ExtractionResponse.rules
                 (build_response st pt (apply_update s2 (format_response_node s2)))) \<subseteq>
               set ps \<union> as_new ` set ps"
    using e2 f2 p2
    by (auto simp: build_response_def format_response_node_def Let_def)
  have a: "\<forall>r \<in> set (ExtractionResponse.rules (fst (run_extraction_workflow w fx st pt existing))).
            status r = NEW \<and> ProcessedRule.change_reason r = None"
    using rules new unfolding run by auto
  have b: "filter is_comparison (calls (snd (run_extraction_workflow w fx st pt existing))) =
           filter is_comparison (calls fx)"
    using log unfolding run by simp
  have c: "\<forall>s. existing_rules s = [] \<longrightarrow>
            should_compare s = ''format'' \<and>
            snd (compare_node w s fx) = fx \<and>
            upd_final_rules (fst (compare_node w s fx)) = Some (map as_new (processed_rules s))"
    by (simp add: should_compare_def compare_node_def)
  show ?thesis
    using a b c by blast
qed

theorem empty_prior_fast_path_witness:
  "ExtractionResponse.rules (fst (run_extraction_workflow demo_world fresh_effects MONTANA ''flower'' (Some []))) =
     [\<lparr> ProcessedRule.rule_name = ''Requirement'',
         rule_description = ''Display THC content in milligrams'',
         rule_text_citation = ''ARM 42.39.301(1)'', status = NEW, change_reason = None \<rparr>,
      \<lparr> ProcessedRule.rule_name = ''Requirement'',
         rule_description = ''Use at least 6 point type'',
         rule_text_citation = ''ARM 42.39.303(1)'', status = NEW, change_reason = None \<rparr>] \<and>
   calls (snd (run_extraction_workflow demo_world fresh_effects MONTANA ''flower'' (Some []))) =
     [ExtractionPrompt ''Display THC content in milligrams'',
      ExtractionPrompt ''Display the warning statement'',
      ExtractionPrompt ''Use at least 6 point type''] \<and>
   filter is_comparison
     (calls (snd (run_extraction_workflow demo_world fresh_effects MONTANA ''flower'' (Some [])))) = []"
proof -
  have run: "run_extraction_workflow demo_world fresh_effects MONTANA ''flower'' (Some []) =
    (\<lparr> success = True, state = ''montana'', product_type = ''flower'',
        source_url = ''https://rules.mt.gov/'', total_rules_extracted = 2,
        rules =
          [\<lparr> ProcessedRule.rule_name = ''Requirement'',
              rule_description = ''Display THC content in milligrams'',
              rule_text_citation = ''ARM 42.39.301(1)'', status = NEW, change_reason = None \<rparr>,
           \<lparr> ProcessedRule.rule_name = ''Requirement'',
              rule_description = ''Use at least 6 point type'',
              rule_text_citation = ''ARM 42.39.303(1)'', status = NEW, change_reason = None \<rparr>],
        error = None \<rparr>,
     \<lparr> gemini_service = True, init_attempts = 1,
       calls = [ExtractionPrompt ''Display THC content in milligrams'',
                ExtractionPrompt ''Display the warning statement'',
                ExtractionPrompt ''Use at least 6 point type''] \<rparr>)"
    by (simp add: run_extraction_workflow_def ainvoke_def scrape_node_def extract_rules_node_def
          should_compare_def format_response_node_def build_response_def create_initial_state_def
          apply_update_def get_gemini_service_def extract_rules_from_scraped_data_def
          extract_rules_from_text_def generate_def build_extraction_prompt_def
          to_processed_rule_def as_new_def pipeline_demo_defs Let_def)
  show ?thesis
    using empty_prior_fast_path [of "Some []" demo_world fresh_effects MONTANA "''flower''"]
    by (simp add: run is_comparison_def)
qed

section \<open>Claims about the caller's objects\<close>

lemma read_rule_Some:
  "read_rule h a = Some r \<longleftrightarrow> a < length h \<and> h ! a = RuleObj r"
  by (auto simp: read_rule_def split: obj.splits)

lemma read_list_Some:
  "read_list h a = Some xs \<longleftrightarrow> a < length h \<and> h ! a = ListObj xs"
  by (auto simp: read_list_def split: obj.splits)

text \<open>Objects below an unchanged prefix read the same.\<close>

lemma prefix_reads:
  assumes "take (length h) h' = h"
  shows "read_rule h a = Some r \<Longrightarrow> read_rule h' a = Some r"
    and "read_list h a = Some xs \<Longrightarrow> read_list h' a = Some xs"
proof -
  have "length (take (length h) h') = length h"
    using assms by simp
  then have len: "length h \<le> length h'"
    by simp
  have nth: "\<And>b. b < length h \<Longrightarrow> h' ! b = h ! b"
    using assms by (metis nth_take)
  show "read_rule h a = Some r \<Longrightarrow> read_rule h' a = Some r"
    using len nth [of a] by (auto simp: read_rule_Some)
  show "read_list h a = Some xs \<Longrightarrow> read_list h' a = Some xs"
    using len nth [of a] by (auto simp: read_list_Some)
qed

lemma rules_of_Nil [simp]: "rules_of h [] = Some []"
  by (simp add: rules_of_def)

lemma rules_of_Cons:
  "rules_of h (a # items) = Some rs \<longleftrightarrow>
     (\<exists>r rest. read_rule h a = Some r \<and> rules_of h items = Some rest \<and> rs = r # rest)"
  by (auto simp: rules_of_def split: option.splits)

lemma rules_of_snoc:
  "rules_of h items = Some rs \<Longrightarrow> read_rule h a = Some r \<Longrightarrow>
   rules_of h (items @ [a]) = Some (rs @ [r])"
proof (induction items arbitrary: rs)
  case Nil
  then show ?case by (simp add: rules_of_def)
next
  case (Cons b items)
  then obtain x rest where x: "read_rule h b = Some x" "rules_of h items = Some rest" "rs = x # rest"
    by (auto simp: rules_of_Cons)
  have "rules_of h (items @ [a]) = Some (rest @ [r])"
    using Cons.IH [OF x(2) Cons.prems(2)] .
  then show ?case
    using x by (simp add: rules_of_Cons)
qed

lemma rules_of_mono:
  assumes "\<And>a r. read_rule h a = Some r \<Longrightarrow> read_rule h2 a = Some r"
  shows "rules_of h items = Some rs \<Longrightarrow> rules_of h2 items = Some rs"
proof (induction items arbitrary: rs)
  case Nil
  then show ?case by simp
next
  case (Cons b items)
  then show ?case
    using assms by (auto simp: rules_of_Cons)
qed

text \<open>One pass of the loop body: allocate the new rule, append its address to the result list.\<close>

lemma emit_step:
  assumes fs: "read_list h final = Some fs"
  shows "list_append (h @ [RuleObj x]) final (length h) =
           Some ((h @ [RuleObj x])[final := ListObj (fs @ [length h])])"
    and "read_list ((h @ [RuleObj x])[final := ListObj (fs @ [length h])]) final =
           Some (fs @ [length h])"
    and "read_rule ((h @ [RuleObj x])[final := ListObj (fs @ [length h])]) (length h) = Some x"
    and "read_rule h a = Some r \<Longrightarrow>
           read_rule ((h @ [RuleObj x])[final := ListObj (fs @ [length h])]) a = Some r"
proof -
  have f: "final < length h" "h ! final = ListObj fs"
    using fs by (simp_all add: read_list_Some)
  have r1: "read_list (h @ [RuleObj x]) final = Some fs"
    using f by (simp add: read_list_Some nth_append)
  show "list_append (h @ [RuleObj x]) final (length h) =
           Some ((h @ [RuleObj x])[final := ListObj (fs @ [length h])])"
    by (simp add: list_append_def r1)
  show "read_list ((h @ [RuleObj x])[final := ListObj (fs @ [length h])]) final =
           Some (fs @ [length h])"
    using f by (simp add: read_list_Some)
  show "read_rule ((h @ [RuleObj x])[final := ListObj (fs @ [length h])]) (length h) = Some x"
    using f by (simp add: read_rule_Some)
  show "read_rule h a = Some r \<Longrightarrow>
           read_rule ((h @ [RuleObj x])[final := ListObj (fs @ [length h])]) a = Some r"
    using f by (auto simp: read_rule_Some nth_append nth_list_update)
qed

lemma list_append_Some:
  "list_append h l a = Some h2 \<Longrightarrow> \<exists>ob. h2 = h[l := ob]"
  by (auto simp: list_append_def split: option.splits)

text \<open>The loop never writes below the address of the result list.\<close>

lemma compare_loop_refs_frame:
  "compare_loop_refs g m final items (h, log) = Some (h', log') \<Longrightarrow>
   k \<le> final \<Longrightarrow> k \<le> length h \<Longrightarrow> take k h' = take k h"
proof (induction items arbitrary: h log)
  case Nil
  then show ?case by simp
next
  case (Cons a rest)
  obtain n where n: "read_rule h a = Some n"
    using Cons.prems(1) by (auto split: option.splits)
  have step: "\<And>x lg. (case list_append (h @ [RuleObj x]) final (length h) of
                 None \<Rightarrow> None
               | Some h2 \<Rightarrow> compare_loop_refs g m final rest (h2, lg)) = Some (h', log') \<Longrightarrow>
             take k h' = take k h"
  proof -
    fix x lg
    assume a: "(case list_append (h @ [RuleObj x]) final (length h) of
                 None \<Rightarrow> None
               | Some h2 \<Rightarrow> compare_loop_refs g m final rest (h2, lg)) = Some (h', log')"
    then obtain h2 where h2: "list_append (h @ [RuleObj x]) final (length h) = Some h2"
      and run: "compare_loop_refs g m final rest (h2, lg) = Some (h', log')"
      by (auto split: option.splits)
    obtain ob where ob: "h2 = (h @ [RuleObj x])[final := ob]"
      using list_append_Some [OF h2] by blast
    have "k \<le> length h2"
      using Cons.prems(3) ob by simp
    then have "take k h' = take k h2"
      using Cons.IH [OF run Cons.prems(2)] by simp
    also have "take k h2 = take k h"
      using Cons.prems(2,3) ob by simp
    finally show "take k h' = take k h" .
  qed
  show ?case
  proof (cases "m (ProcessedRule.rule_text_citation n)")
    case None
    then show ?thesis
      using Cons.prems(1) n step [where x = "with_status n NEW None" and lg = log]
      by (simp add: alloc_def)
  next
    case (Some e)
    obtain p where p: "read_rule h e = Some p"
      using Cons.prems(1) n Some by (auto split: option.splits)
    obtain s r lg where cr: "compare_rules g log p n = ((s, r), lg)"
      by (metis surj_pair)
    show ?thesis
      using Cons.prems(1) n Some p cr step [where x = "with_status n s r" and lg = lg]
      by (simp add: alloc_def)
  qed
qed

lemma compare_rule_sets_refs_frame:
  assumes "compare_rule_sets_refs g log h P N = Some (F, h', log')"
  shows "take (length h) h' = h \<and> F = length h"
proof -
  obtain existing where e: "read_list h P = Some existing"
    using assms by (cases "read_list h P") (simp_all add: compare_rule_sets_refs_def)
  obtain m where m: "existing_map_refs h existing Map.empty = Some m"
    using assms e
    by (cases "existing_map_refs h existing Map.empty") (simp_all add: compare_rule_sets_refs_def)
  obtain items where i: "read_list (h @ [ListObj []]) N = Some items"
    using assms e m
    by (cases "read_list (h @ [ListObj []]) N") (simp_all add: compare_rule_sets_refs_def alloc_def)
  obtain h2 lg where r: "compare_loop_refs g m (length h) items (h @ [ListObj []], log) = Some (h2, lg)"
    using assms e m i
    by (cases "compare_loop_refs g m (length h) items (h @ [ListObj []], log)")
       (auto simp: compare_rule_sets_refs_def alloc_def)
  have F: "F = length h" and "h2 = h'" and "lg = log'"
    using assms e m i r by (simp_all add: compare_rule_sets_refs_def alloc_def)
  then have run: "compare_loop_refs g m (length h) items (h @ [ListObj []], log) = Some (h', log')"
    using r by simp
  have "take (length h) h' = take (length h) (h @ [ListObj []])"
    using compare_loop_refs_frame [OF run, of "length h"] by simp
  then show ?thesis
    using F by simp
qed

text \<open>
  The map of addresses built over the store stands for the map of rules built
  from the rules the addresses hold.
\<close>

lemma existing_map_refs_refines:
  "rules_of h items = Some ps \<Longrightarrow>
   \<forall>c. rel_option (\<lambda>a r. read_rule h a = Some r) (mr c) (mp c) \<Longrightarrow>
   \<exists>m'. existing_map_refs h items mr = Some m' \<and>
        (\<forall>c. rel_option (\<lambda>a r. read_rule h a = Some r) (m' c)
               (fold (\<lambda>rule m. m(ProcessedRule.rule_text_citation rule \<mapsto> rule)) ps mp c))"
proof (induction items arbitrary: ps mr mp)
  case Nil
  then show ?case by simp
next
  case (Cons a items)
  obtain r rest where r: "read_rule h a = Some r" "rules_of h items = Some rest" "ps = r # rest"
    using Cons.prems(1) by (auto simp: rules_of_Cons)
  have rel: "\<forall>c. rel_option (\<lambda>a r. read_rule h a = Some r)
               ((mr(ProcessedRule.rule_text_citation r \<mapsto> a)) c)
               ((mp(ProcessedRule.rule_text_citation r \<mapsto> r)) c)"
    using Cons.prems(2) r(1) by simp
  obtain m' where m': "existing_map_refs h items (mr(ProcessedRule.rule_text_citation r \<mapsto> a)) = Some m'"
    "\<forall>c. rel_option (\<lambda>a r. read_rule h a = Some r) (m' c)
          (fold (\<lambda>rule m. m(ProcessedRule.rule_text_citation rule \<mapsto> rule)) rest
             (mp(ProcessedRule.rule_text_citation r \<mapsto> r)) c)"
    using Cons.IH [OF r(2), of "mr(ProcessedRule.rule_text_citation r \<mapsto> a)"
        "mp(ProcessedRule.rule_text_citation r \<mapsto> r)"] rel
    by blast
  show ?case
    using r(1,3) m' by (simp add: fun_upd_def)
qed

lemma compare_loop_refs_refines:
  "rules_of h items = Some ns \<Longrightarrow>
   read_list h final = Some fs \<Longrightarrow>
   rules_of h fs = Some acc \<Longrightarrow>
   \<forall>c. rel_option (\<lambda>a r. read_rule h a = Some r) (mr c) (mp c) \<Longrightarrow>
   \<exists>h'. compare_loop_refs g mr final items (h, log) =
           Some (h', snd (compare_loop g mp ns (acc, log))) \<and>
        rules_at h' final = Some (fst (compare_loop g mp ns (acc, log)))"
proof (induction items arbitrary: ns h fs acc log)
  case Nil
  then show ?case by (simp add: rules_at_def)
next
  case (Cons a rest)
  obtain n ns' where n: "read_rule h a = Some n" "rules_of h rest = Some ns'" "ns = n # ns'"
    using Cons.prems(1) by (auto simp: rules_of_Cons)
  have step: "\<exists>h'. (case list_append (h @ [RuleObj x]) final (length h) of
                       None \<Rightarrow> None
                     | Some h2 \<Rightarrow> compare_loop_refs g mr final rest (h2, lg)) =
                    Some (h', snd (compare_loop g mp ns' (acc @ [x], lg))) \<and>
                 rules_at h' final = Some (fst (compare_loop g mp ns' (acc @ [x], lg)))"
    for x lg
  proof -
    define h2 where "h2 = (h @ [RuleObj x])[final := ListObj (fs @ [length h])]"
    note e = emit_step [OF Cons.prems(2), where x = x, folded h2_def]
    have keep: "\<And>b r. read_rule h b = Some r \<Longrightarrow> read_rule h2 b = Some r"
      using e(4) .
    have a1: "rules_of h2 rest = Some ns'"
      using rules_of_mono [of h h2 rest ns'] keep n(2) by blast
    have a3: "rules_of h2 (fs @ [length h]) = Some (acc @ [x])"
      using rules_of_snoc [of h2 fs acc "length h" x] rules_of_mono [of h h2 fs acc] keep
        Cons.prems(3) e(3) by blast
    have a4: "\<forall>c. rel_option (\<lambda>a r. read_rule h2 a = Some r) (mr c) (mp c)"
    proof
      fix c
      show "rel_option (\<lambda>a r. read_rule h2 a = Some r) (mr c) (mp c)"
        using Cons.prems(4) keep by (cases "mr c"; cases "mp c") (auto dest: spec [of _ c])
    qed
    show ?thesis
      using Cons.IH [OF a1 e(2) a3 a4, where log = lg] e(1) by simp
  qed
  show ?case
  proof (cases "mp (ProcessedRule.rule_text_citation n)")
    case None
    have "rel_option (\<lambda>a r. read_rule h a = Some r)
            (mr (ProcessedRule.rule_text_citation n)) (mp (ProcessedRule.rule_text_citation n))"
      using Cons.prems(4) by blast
    then have "mr (ProcessedRule.rule_text_citation n) = None"
      using None by simp
    then show ?thesis
      using None n step [where x = "with_status n NEW None" and lg = log] by (simp add: alloc_def)
  next
    case (Some p)
    have "rel_option (\<lambda>a r. read_rule h a = Some r)
            (mr (ProcessedRule.rule_text_citation n)) (mp (ProcessedRule.rule_text_citation n))"
      using Cons.prems(4) by blast
    then obtain e where e: "mr (ProcessedRule.rule_text_citation n) = Some e" "read_rule h e = Some p"
      using Some by (auto simp: option_rel_Some2)
    obtain s r lg where cr: "compare_rules g log p n = ((s, r), lg)"
      by (metis surj_pair)
    show ?thesis
      using Some n e cr step [where x = "with_status n s r" and lg = lg] by (simp add: alloc_def)
  qed
qed

lemma compare_rule_sets_refs_refines:
  assumes P: "rules_at h P = Some ps" and N: "rules_at h N = Some ns"
  shows "\<exists>h'. compare_rule_sets_refs g log h P N =
                Some (length h, h', snd (compare_rule_sets g log ps ns)) \<and>
              rules_at h' (length h) = Some (fst (compare_rule_sets g log ps ns))"
proof -
  obtain pitems where p: "read_list h P = Some pitems" "rules_of h pitems = Some ps"
    using P by (auto simp: rules_at_def split: option.splits)
  obtain nitems where n: "read_list h N = Some nitems" "rules_of h nitems = Some ns"
    using N by (auto simp: rules_at_def split: option.splits)
  obtain m where m: "existing_map_refs h pitems Map.empty = Some m"
    and rel: "\<forall>c. rel_option (\<lambda>a r. read_rule h a = Some r) (m c) (existing_map ps c)"
    using existing_map_refs_refines [OF p(2), where mr = Map.empty and mp = Map.empty]
    by (auto simp: existing_map_def)
  define h1 where "h1 = h @ [ListObj []]"
  have pre: "take (length h) h1 = h"
    by (simp add: h1_def)
  have keep: "\<And>b r. read_rule h b = Some r \<Longrightarrow> read_rule h1 b = Some r"
    using prefix_reads(1) [OF pre] .
  have n1: "read_list h1 N = Some nitems"
    using prefix_reads(2) [OF pre n(1)] .
  have a1: "rules_of h1 nitems = Some ns"
    using rules_of_mono [of h h1 nitems ns] keep n(2) by blast
  have a2: "read_list h1 (length h) = Some []"
    by (simp add: h1_def read_list_Some)
  have a3: "rules_of h1 [] = Some []"
    by simp
  have a4: "\<forall>c. rel_option (\<lambda>a r. read_rule h1 a = Some r) (m c) (existing_map ps c)"
  proof
    fix c
    show "rel_option (\<lambda>a r. read_rule h1 a = Some r) (m c) (existing_map ps c)"
      using rel keep by (cases "m c"; cases "existing_map ps c") (auto dest: spec [of _ c])
  qed
  obtain h' where h': "compare_loop_refs g m (length h) nitems (h1, log) =
                         Some (h', snd (compare_loop g (existing_map ps) ns ([], log)))"
    and out: "rules_at h' (length h) = Some (fst (compare_loop g (existing_map ps) ns ([], log)))"
    using compare_loop_refs_refines [OF a1 a2 a3 a4, where g = g and log = log] by blast
  have "compare_rule_sets_refs g log h P N =
          Some (length h, h', snd (compare_rule_sets g log ps ns))"
    using p(1) m n1 h' by (simp add: compare_rule_sets_refs_def compare_rule_sets_def alloc_def h1_def)
  then show ?thesis
    using out by (auto simp: compare_rule_sets_def)
qed

text \<open>The items of the result list are addresses allocated by the loop.\<close>

lemma compare_loop_refs_fresh:
  "compare_loop_refs g m final items (h, log) = Some (h', log') \<Longrightarrow>
   read_list h final = Some fs \<Longrightarrow> \<forall>a \<in> set fs. k \<le> a \<Longrightarrow> k \<le> length h \<Longrightarrow>
   \<exists>fs'. read_list h' final = Some fs' \<and> (\<forall>a \<in> set fs'. k \<le> a)"
proof (induction items arbitrary: h log fs)
  case Nil
  then show ?case by auto
next
  case (Cons a rest)
  obtain n where n: "read_rule h a = Some n"
    using Cons.prems(1) by (auto split: option.splits)
  have step: "\<exists>fs'. read_list h' final = Some fs' \<and> (\<forall>a \<in> set fs'. k \<le> a)"
    if run: "(case list_append (h @ [RuleObj x]) final (length h) of
                 None \<Rightarrow> None
               | Some h2 \<Rightarrow> compare_loop_refs g m final rest (h2, lg)) = Some (h', log')"
    for x lg
  proof -
    define h2 where "h2 = (h @ [RuleObj x])[final := ListObj (fs @ [length h])]"
    note e = emit_step [OF Cons.prems(2), where x = x, folded h2_def]
    have r: "compare_loop_refs g m final rest (h2, lg) = Some (h', log')"
      using run e(1) by simp
    have f: "\<forall>a \<in> set (fs @ [length h]). k \<le> a"
      using Cons.prems(3,4) by simp
    have l: "k \<le> length h2"
      using Cons.prems(4) by (simp add: h2_def)
    show ?thesis
      using Cons.IH [OF r e(2) f l] .
  qed
  show ?case
  proof (cases "m (ProcessedRule.rule_text_citation n)")
    case None
    then show ?thesis
      using Cons.prems(1) n step [where x = "with_status n NEW None" and lg = log]
      by (simp add: alloc_def)
  next
    case (Some e)
    obtain p where p: "read_rule h e = Some p"
      using Cons.prems(1) n Some by (auto split: option.splits)
    obtain s r lg where cr: "compare_rules g log p n = ((s, r), lg)"
      by (metis surj_pair)
    show ?thesis
      using Cons.prems(1) n Some p cr step [where x = "with_status n s r" and lg = lg]
      by (simp add: alloc_def)
  qed
qed

lemma compare_rule_sets_refs_fresh:
  assumes "compare_rule_sets_refs g log h P N = Some (F, h', log')"
  shows "\<exists>items. read_list h' F = Some items \<and> (\<forall>a \<in> set items. length h < a)"
proof -
  obtain existing where e: "read_list h P = Some existing"
    using assms by (cases "read_list h P") (simp_all add: compare_rule_sets_refs_def)
  obtain m where m: "existing_map_refs h existing Map.empty = Some m"
    using assms e
    by (cases "existing_map_refs h existing Map.empty") (simp_all add: compare_rule_sets_refs_def)
  obtain items where i: "read_list (h @ [ListObj []]) N = Some items"
    using assms e m
    by (cases "read_list (h @ [ListObj []]) N") (simp_all add: compare_rule_sets_refs_def alloc_def)
  obtain h2 lg where r: "compare_loop_refs g m (length h) items (h @ [ListObj []], log) = Some (h2, lg)"
    using assms e m i
    by (cases "compare_loop_refs g m (length h) items (h @ [ListObj []], log)")
       (auto simp: compare_rule_sets_refs_def alloc_def)
  have F: "F = length h" and "h2 = h'" and "lg = log'"
    using assms e m i r by (simp_all add: compare_rule_sets_refs_def alloc_def)
  then have run: "compare_loop_refs g m (length h) items (h @ [ListObj []], log) = Some (h', log')"
    using r by simp
  have a2: "read_list (h @ [ListObj []]) (length h) = Some []"
    by (simp add: read_list_Some)
  obtain fs' where "read_list h' (length h) = Some fs'" "\<forall>a \<in> set fs'. Suc (length h) \<le> a"
    using compare_loop_refs_fresh [OF run a2, of "Suc (length h)"] by auto
  then show ?thesis
    using F by auto
qed

text \<open>
  C9. \<open>compare_rule_sets\<close> never mutates what the caller supplied. Whenever the
  call returns, every object that was in the store before the call is
  unchanged after it (the prior list, each prior rule, and the candidates as
  well), the returned list is a new object, and every item of it is the
  address of an object allocated during the call. And the call does return
  when \<open>P\<close> and \<open>N\<close> are addresses of lists of rules: then the prior list still
  holds the same items and the same rules afterwards, and the returned list
  holds exactly the rules that \<open>compare_rule_sets\<close> computes from the rules of
  \<open>P\<close> and \<open>N\<close>.
\<close>

theorem compare_rule_sets_leaves_caller_store:
  "(\<forall>F h' log'. compare_rule_sets_refs g log h P N = Some (F, h', log') \<longrightarrow>
       take (length h) h' = h \<and> F = length h \<and>
       (\<exists>items. read_list h' F = Some items \<and> (\<forall>a \<in> set items. length h < a))) \<and>
   (rules_at h P = Some ps \<and> rules_at h N = Some ns \<longrightarrow>
      (\<exists>h'. compare_rule_sets_refs g log h P N =
               Some (length h, h', snd (compare_rule_sets g log ps ns)) \<and>
            take (length h) h' = h \<and>
            read_list h' P = read_list h P \<and>
            rules_at h' P = Some ps \<and>
            rules_at h' (length h) = Some (fst (compare_rule_sets g log ps ns))))"
proof (intro conjI allI impI)
  fix F h' log'
  assume a: "compare_rule_sets_refs g log h P N = Some (F, h', log')"
  show "take (length h) h' = h" and "F = length h"
    using compare_rule_sets_refs_frame [OF a] by blast+
  show "\<exists>items. read_list h' F = Some items \<and> (\<forall>a \<in> set items. length h < a)"
    using compare_rule_sets_refs_fresh [OF a] .
next
  assume a: "rules_at h P = Some ps \<and> rules_at h N = Some ns"
  obtain h' where run: "compare_rule_sets_refs g log h P N =
                          Some (length h, h', snd (compare_rule_sets g log ps ns))"
    and out: "rules_at h' (length h) = Some (fst (compare_rule_sets g log ps ns))"
    using compare_rule_sets_refs_refines [of h P ps N ns g log] a by blast
  have pre: "take (length h) h' = h"
    using compare_rule_sets_refs_frame [OF run] by simp
  obtain pitems where p: "read_list h P = Some pitems" "rules_of h pitems = Some ps"
    using a by (auto simp: rules_at_def split: option.splits)
  have p': "read_list h' P = Some pitems"
    using prefix_reads(2) [OF pre p(1)] .
  have "rules_of h' pitems = Some ps"
    using rules_of_mono [of h h' pitems ps] prefix_reads(1) [OF pre] p(2) by blast
  then have "rules_at h' P = Some ps"
    using p' by (simp add: rules_at_def)
  then show "\<exists>h'. compare_rule_sets_refs g log h P N =
               Some (length h, h', snd (compare_rule_sets g log ps ns)) \<and>
            take (length h) h' = h \<and>
            read_list h' P = read_list h P \<and>
            rules_at h' P = Some ps \<and>
            rules_at h' (length h) = Some (fst (compare_rule_sets g log ps ns))"
    using run pre p p' out by auto
qed

theorem compare_rule_sets_leaves_caller_store_witness:
  "rules_at demo_store 7 = Some demo_prior \<and>
   rules_at demo_store 8 = Some demo_new \<and>
   (\<exists>h'. compare_rule_sets_refs demo_gemini [] demo_store 7 8 =
            Some (9, h', snd (compare_rule_sets demo_gemini [] demo_prior demo_new)) \<and>
         take 9 h' = demo_store \<and>
         read_list h' 7 = Some [0, 1, 2] \<and>
         rules_at h' 7 = Some demo_prior \<and>
         rules_at h' 9 = Some (fst (compare_rule_sets demo_gemini [] demo_prior demo_new)))"
proof -
  have P: "rules_at demo_store 7 = Some demo_prior"
    by (simp add: demo_store_def demo_prior_def demo_new_def rules_at_def rules_of_def
          read_list_def read_rule_def)
  have N: "rules_at demo_store 8 = Some demo_new"
    by (simp add: demo_store_def demo_prior_def demo_new_def rules_at_def rules_of_def
          read_list_def read_rule_def)
  have l: "length demo_store = 9"
    by (simp add: demo_store_def demo_prior_def demo_new_def)
  have r: "read_list demo_store 7 = Some [0, 1, 2]"
    by (simp add: demo_store_def demo_prior_def demo_new_def read_list_def)
  show ?thesis
    using compare_rule_sets_leaves_caller_store
            [of demo_gemini "[]" demo_store 7 8 demo_prior demo_new] P N
    by (simp add: l r)
qed

end
